theory Spec2Isabelle
  imports Complex_Main
begin

section \<open>JavaScript numbers\<close>

text \<open>
  The planner is written in JavaScript, so every quantity it computes with is an IEEE
  double. The embedding keeps the three kinds of non-finite value (\<open>NaN\<close> and the two
  infinities), because the code's guards (\<open>Number(x) || 14\<close>, comparisons against an
  Invalid Date) depend on them, and takes the finite values to be exact reals: rounding
  of doubles and the sign of zero are outside the model. The arithmetic of the model
  is that of the code wherever the operands and the result are whole numbers below
  \<open>2^53\<close>: time values and day numbers, counts of days, and counts of periods
  when the period is a whole number of days. Where hours or balances may be
  fractions, results about them are stated as the code's own sequence of operations
  rather than as a closed sum.
\<close>

datatype jsnum = NaN | Fin real | PosInf | NegInf

fun js_neg :: "jsnum \<Rightarrow> jsnum" where
  "js_neg NaN = NaN"
| "js_neg (Fin a) = Fin (- a)"
| "js_neg PosInf = NegInf"
| "js_neg NegInf = PosInf"

fun js_add :: "jsnum \<Rightarrow> jsnum \<Rightarrow> jsnum" where
  "js_add (Fin a) (Fin b) = Fin (a + b)"
| "js_add NaN _ = NaN"
| "js_add _ NaN = NaN"
| "js_add PosInf NegInf = NaN"
| "js_add NegInf PosInf = NaN"
| "js_add PosInf _ = PosInf"
| "js_add _ PosInf = PosInf"
| "js_add NegInf _ = NegInf"
| "js_add _ NegInf = NegInf"

definition js_sub :: "jsnum \<Rightarrow> jsnum \<Rightarrow> jsnum" where
  "js_sub a b = js_add a (js_neg b)"

text \<open>The sign of a non-zero finite or infinite number; \<open>None\<close> for \<open>NaN\<close> and zero.\<close>

fun js_sign :: "jsnum \<Rightarrow> bool option" where
  "js_sign NaN = None"
| "js_sign (Fin a) = (if a = 0 then None else Some (0 < a))"
| "js_sign PosInf = Some True"
| "js_sign NegInf = Some False"

definition js_inf :: "bool \<Rightarrow> jsnum" where
  "js_inf positive = (if positive then PosInf else NegInf)"

fun js_mul :: "jsnum \<Rightarrow> jsnum \<Rightarrow> jsnum" where
  "js_mul (Fin a) (Fin b) = Fin (a * b)"
| "js_mul NaN _ = NaN"
| "js_mul _ NaN = NaN"
| "js_mul a b =
     (case (js_sign a, js_sign b) of
        (Some s, Some t) \<Rightarrow> js_inf (s = t)
      | _ \<Rightarrow> NaN)"

fun js_div :: "jsnum \<Rightarrow> jsnum \<Rightarrow> jsnum" where
  "js_div NaN _ = NaN"
| "js_div _ NaN = NaN"
| "js_div (Fin a) (Fin b) =
     (if b \<noteq> 0 then Fin (a / b)
      else if a = 0 then NaN
      else js_inf (0 < a))"
| "js_div (Fin a) _ = Fin 0"
| "js_div a (Fin b) =
     (case js_sign a of
        Some s \<Rightarrow> js_inf (s = (0 \<le> b))
      | None \<Rightarrow> NaN)"
| "js_div _ _ = NaN"

text \<open>\<open>Math.floor\<close> and \<open>Math.ceil\<close>.\<close>

fun Math_floor :: "jsnum \<Rightarrow> jsnum" where
  "Math_floor (Fin a) = Fin (of_int \<lfloor>a\<rfloor>)"
| "Math_floor n = n"

fun Math_ceil :: "jsnum \<Rightarrow> jsnum" where
  "Math_ceil (Fin a) = Fin (of_int \<lceil>a\<rceil>)"
| "Math_ceil n = n"

text \<open>The relational operators: every comparison with \<open>NaN\<close> is false.\<close>

fun js_lt :: "jsnum \<Rightarrow> jsnum \<Rightarrow> bool" where
  "js_lt NaN _ = False"
| "js_lt _ NaN = False"
| "js_lt (Fin a) (Fin b) = (a < b)"
| "js_lt _ NegInf = False"
| "js_lt NegInf _ = True"
| "js_lt PosInf _ = False"
| "js_lt _ PosInf = True"

text \<open>
  \<open>a <= b\<close> is false when either side is \<open>NaN\<close>, and otherwise the negation of
  \<open>b < a\<close>.
\<close>

definition js_le :: "jsnum \<Rightarrow> jsnum \<Rightarrow> bool" where
  "js_le a b = (a \<noteq> NaN \<and> b \<noteq> NaN \<and> \<not> js_lt b a)"

definition js_gt :: "jsnum \<Rightarrow> jsnum \<Rightarrow> bool" where
  "js_gt a b = js_lt b a"

definition js_ge :: "jsnum \<Rightarrow> jsnum \<Rightarrow> bool" where
  "js_ge a b = js_le b a"

text \<open>\<open>Math.max\<close> of two arguments: \<open>NaN\<close> if either is.\<close>

definition Math_max :: "jsnum \<Rightarrow> jsnum \<Rightarrow> jsnum" where
  "Math_max a b = (if a = NaN \<or> b = NaN then NaN else if js_lt a b then b else a)"

text \<open>
  \<open>a || b\<close> on numbers: \<open>a\<close> is falsy when it is \<open>NaN\<close> or zero.
\<close>

definition num_truthy :: "jsnum \<Rightarrow> bool" where
  "num_truthy a = (a \<noteq> NaN \<and> a \<noteq> Fin 0)"

definition js_or :: "jsnum \<Rightarrow> jsnum \<Rightarrow> jsnum" where
  "js_or a b = (if num_truthy a then a else b)"

text \<open>
  \<open>ToIntegerOrInfinity\<close> on a finite number truncates towards zero.
\<close>

definition trunc :: "real \<Rightarrow> int" where
  "trunc x = (if 0 \<le> x then \<lfloor>x\<rfloor> else \<lceil>x\<rceil>)"

text \<open>The remainder operator \<open>%\<close> (the sign of the result is that of the dividend) and \<open>Math.min\<close>.\<close>

fun js_rem :: "jsnum \<Rightarrow> jsnum \<Rightarrow> jsnum" where
  "js_rem (Fin a) (Fin b) = (if b = 0 then NaN else Fin (a - b * of_int (trunc (a / b))))"
| "js_rem (Fin a) PosInf = Fin a"
| "js_rem (Fin a) NegInf = Fin a"
| "js_rem _ _ = NaN"

definition Math_min :: "jsnum \<Rightarrow> jsnum \<Rightarrow> jsnum" where
  "Math_min a b = (if a = NaN \<or> b = NaN then NaN else if js_lt b a then b else a)"

section \<open>Strings to numbers\<close>

text \<open>
  \<open>Number(s)\<close> on a string follows the \<open>StringNumericLiteral\<close> grammar: surrounding
  white space is dropped, the empty string is 0, and the rest is a signed decimal
  literal (with optional fraction and exponent), \<open>Infinity\<close>, or an unsigned binary,
  octal or hexadecimal integer. Anything else is \<open>NaN\<close>. Strings are sequences of 8-bit
  code units here.
\<close>

definition is_ws :: "char \<Rightarrow> bool" where
  "is_ws c = ((of_char c :: int) \<in> {9, 10, 11, 12, 13, 32, 160})"

definition trim :: "string \<Rightarrow> string" where
  "trim s = rev (dropWhile is_ws (rev (dropWhile is_ws s)))"

definition is_digit :: "char \<Rightarrow> bool" where
  "is_digit c = (48 \<le> (of_char c :: int) \<and> (of_char c :: int) \<le> 57)"

text \<open>The numeric worth of a digit in a radix up to 16; \<open>None\<close> if the character is not one.\<close>

definition digit_worth :: "char \<Rightarrow> int option" where
  "digit_worth c =
     (let n = (of_char c :: int)
      in if 48 \<le> n \<and> n \<le> 57 then Some (n - 48)
         else if 97 \<le> n \<and> n \<le> 102 then Some (n - 87)
         else if 65 \<le> n \<and> n \<le> 70 then Some (n - 55)
         else None)"

definition digit_of :: "int \<Rightarrow> char \<Rightarrow> int option" where
  "digit_of radix c =
     (case digit_worth c of
        Some d \<Rightarrow> (if d < radix then Some d else None)
      | None \<Rightarrow> None)"

fun digits_in :: "int \<Rightarrow> int \<Rightarrow> string \<Rightarrow> int option" where
  "digits_in radix acc [] = Some acc"
| "digits_in radix acc (c # cs) =
     (case digit_of radix c of
        None \<Rightarrow> None
      | Some d \<Rightarrow> digits_in radix (radix * acc + d) cs)"

text \<open>A non-empty run of digits in the given radix, read as a number.\<close>

definition read_digits :: "int \<Rightarrow> string \<Rightarrow> int option" where
  "read_digits radix s = (if s = [] then None else digits_in radix 0 s)"

text \<open>A (possibly empty) run of decimal digits, read as a number.\<close>

fun decimal_worth :: "int \<Rightarrow> string \<Rightarrow> int" where
  "decimal_worth acc [] = acc"
| "decimal_worth acc (c # cs) = decimal_worth (10 * acc + ((of_char c :: int) - 48)) cs"

text \<open>The exponent part after \<open>e\<close> or \<open>E\<close>: an optional sign and at least one digit.\<close>

definition read_exponent :: "string \<Rightarrow> int option" where
  "read_exponent s =
     (case s of
        [] \<Rightarrow> None
      | c # cs \<Rightarrow>
          if c = CHR ''+'' then read_digits 10 cs
          else if c = CHR ''-'' then map_option uminus (read_digits 10 cs)
          else read_digits 10 s)"

definition pow10 :: "int \<Rightarrow> real" where
  "pow10 e = (if 0 \<le> e then 10 ^ nat e else 1 / 10 ^ nat (- e))"

text \<open>
  \<open>StrUnsignedDecimalLiteral\<close>: \<open>Infinity\<close>, or digits with an optional fraction and an
  optional exponent; at least one digit must stand before or after the point.
  \<open>decimal_tail ip fp r\<close> has the integer digits \<open>ip\<close>, the fraction digits \<open>fp\<close> and
  the text \<open>r\<close> left after them.
\<close>

definition decimal_number :: "string \<Rightarrow> string \<Rightarrow> int \<Rightarrow> jsnum" where
  "decimal_number ip fp e =
     Fin ((of_int (decimal_worth 0 ip) + of_int (decimal_worth 0 fp) / 10 ^ length fp) * pow10 e)"

definition decimal_tail :: "string \<Rightarrow> string \<Rightarrow> string \<Rightarrow> jsnum" where
  "decimal_tail ip fp r =
     (if ip = [] \<and> fp = [] then NaN
      else case r of
             [] \<Rightarrow> decimal_number ip fp 0
           | c # cs \<Rightarrow>
               if c = CHR ''e'' \<or> c = CHR ''E'' then
                 (case read_exponent cs of
                    None \<Rightarrow> NaN
                  | Some e \<Rightarrow> decimal_number ip fp e)
               else NaN)"

definition decimal_parts :: "string \<Rightarrow> string \<Rightarrow> jsnum" where
  "decimal_parts ip r =
     (case r of
        [] \<Rightarrow> decimal_tail ip [] []
      | c # cs \<Rightarrow>
          if c = CHR ''.'' then decimal_tail ip (takeWhile is_digit cs) (dropWhile is_digit cs)
          else decimal_tail ip [] r)"

definition read_unsigned_decimal :: "string \<Rightarrow> jsnum" where
  "read_unsigned_decimal s =
     (if s = ''Infinity'' then PosInf
      else decimal_parts (takeWhile is_digit s) (dropWhile is_digit s))"

definition read_radix_literal :: "int \<Rightarrow> string \<Rightarrow> jsnum" where
  "read_radix_literal radix s =
     (case read_digits radix s of
        None \<Rightarrow> NaN
      | Some n \<Rightarrow> Fin (of_int n))"

definition read_numeric :: "string \<Rightarrow> jsnum" where
  "read_numeric s =
     (if take 2 s = ''0x'' \<or> take 2 s = ''0X'' then read_radix_literal 16 (drop 2 s)
      else if take 2 s = ''0o'' \<or> take 2 s = ''0O'' then read_radix_literal 8 (drop 2 s)
      else if take 2 s = ''0b'' \<or> take 2 s = ''0B'' then read_radix_literal 2 (drop 2 s)
      else case s of
             [] \<Rightarrow> NaN
           | c # cs \<Rightarrow>
               if c = CHR ''+'' then read_unsigned_decimal cs
               else if c = CHR ''-'' then js_neg (read_unsigned_decimal cs)
               else read_unsigned_decimal s)"

definition StringToNumber :: "string \<Rightarrow> jsnum" where
  "StringToNumber str = (if trim str = [] then Fin 0 else read_numeric (trim str))"

text \<open>\<open>String.prototype.split\<close> with a one-character separator.\<close>

fun split_on :: "char \<Rightarrow> string \<Rightarrow> string list" where
  "split_on sep [] = [[]]"
| "split_on sep (c # cs) =
     (if c = sep then [] # split_on sep cs
      else case split_on sep cs of
             [] \<Rightarrow> [[c]]
           | p # ps \<Rightarrow> (c # p) # ps)"

text \<open>
  An array element read by destructuring and then used as a number: a missing element
  is \<open>undefined\<close>, which every arithmetic use turns into \<open>NaN\<close>.
\<close>

definition elem_num :: "jsnum list \<Rightarrow> nat \<Rightarrow> jsnum" where
  "elem_num xs i = (if i < length xs then xs ! i else NaN)"

section \<open>The Date built-ins\<close>

text \<open>
  A \<open>Date\<close> object holds a time value: an integral number of milliseconds since the
  epoch, at most \<open>8.64e15\<close> in magnitude, or \<open>NaN\<close> (an Invalid Date). The functions
  below are the abstract operations of the language standard that the planner reaches
  through \<open>Date.UTC\<close>, \<open>new Date\<close>, the \<open>getUTC...\<close> methods and \<open>toISOString\<close>.
\<close>

datatype jsdate = InvalidDate | TimeValue int

definition msPerDay :: int where
  "msPerDay = 86400000"

definition Day :: "int \<Rightarrow> int" where
  "Day t = t div msPerDay"

definition DaysInYear :: "int \<Rightarrow> int" where
  "DaysInYear y =
     (if y mod 4 \<noteq> 0 then 365
      else if y mod 100 \<noteq> 0 then 366
      else if y mod 400 \<noteq> 0 then 365
      else 366)"

definition DayFromYear :: "int \<Rightarrow> int" where
  "DayFromYear y =
     365 * (y - 1970) + (y - 1969) div 4 - (y - 1901) div 100 + (y - 1601) div 400"

text \<open>
  The year of a day number is the largest \<open>y\<close> with \<open>DayFromYear y \<le> d\<close>. The search
  climbs from a year that is not after it.
\<close>

function year_search :: "int \<Rightarrow> int \<Rightarrow> int" where
  "year_search d y = (if DayFromYear (y + 1) \<le> d then year_search d (y + 1) else y)"
  by pat_completeness auto

lemma div_step:
  fixes a k :: int
  assumes "0 < k"
  shows "(a + 1) div k = a div k + (if (a + 1) mod k = 0 then 1 else 0)"
proof -
  have a: "k * (a div k) + a mod k = a" by (rule mult_div_mod_eq)
  have r: "0 \<le> a mod k" "a mod k < k" using assms by simp_all
  show ?thesis
  proof (cases "a mod k + 1 = k")
    case True
    have "a + 1 = k * (a div k) + k" using a True by linarith
    then have e: "a + 1 = k * (a div k + 1)" by (simp add: distrib_left)
    have "(k * (a div k + 1)) div k = a div k + 1" using assms by simp
    moreover have "(k * (a div k + 1)) mod k = 0" by simp
    ultimately show ?thesis using e by simp
  next
    case False
    then have lt: "a mod k + 1 < k" using r by linarith
    have e: "a + 1 = k * (a div k) + (a mod k + 1)" using a by linarith
    have p: "0 \<le> a mod k + 1" using r by linarith
    have "(a + 1) div k = a div k"
      by (rule int_div_pos_eq [OF e p lt])
    moreover have "(a + 1) mod k = a mod k + 1"
      by (rule int_mod_pos_eq [OF e p lt])
    ultimately show ?thesis using r by simp
  qed
qed

lemma mod_shift:
  fixes y k c :: int
  shows "(y - k * c) mod k = y mod k"
proof -
  have "(y - k * c) mod k = (y + k * (- c)) mod k" by simp
  also have "\<dots> = y mod k" by (rule mod_mult_self2)
  finally show ?thesis .
qed

lemma mod_coarser:
  fixes y k j :: int
  assumes "j dvd k" and "y mod k = 0"
  shows "y mod j = 0"
proof -
  have "k dvd y" using assms(2) by (simp add: dvd_eq_mod_eq_0)
  with assms(1) have "j dvd y" by (rule dvd_trans)
  then show ?thesis by (simp add: dvd_eq_mod_eq_0)
qed

lemma DayFromYear_step: "DayFromYear (y + 1) = DayFromYear y + DaysInYear y"
proof -
  have d4: "(y + 1 - 1969) div 4 = (y - 1969) div 4 + (if y mod 4 = 0 then 1 else 0)"
  proof -
    have "(y - 4 * 492) mod 4 = y mod 4" by (rule mod_shift)
    then have "(y - 1969 + 1) mod 4 = y mod 4" by simp
    moreover have "y + 1 - 1969 = y - 1969 + 1" by simp
    ultimately show ?thesis using div_step [of 4 "y - 1969"] by simp
  qed
  have d100: "(y + 1 - 1901) div 100 = (y - 1901) div 100 + (if y mod 100 = 0 then 1 else 0)"
  proof -
    have "(y - 100 * 19) mod 100 = y mod 100" by (rule mod_shift)
    then have "(y - 1901 + 1) mod 100 = y mod 100" by simp
    moreover have "y + 1 - 1901 = y - 1901 + 1" by simp
    ultimately show ?thesis using div_step [of 100 "y - 1901"] by simp
  qed
  have d400: "(y + 1 - 1601) div 400 = (y - 1601) div 400 + (if y mod 400 = 0 then 1 else 0)"
  proof -
    have "(y - 400 * 4) mod 400 = y mod 400" by (rule mod_shift)
    then have "(y - 1601 + 1) mod 400 = y mod 400" by simp
    moreover have "y + 1 - 1601 = y - 1601 + 1" by simp
    ultimately show ?thesis using div_step [of 400 "y - 1601"] by simp
  qed
  have m1: "y mod 100 = 0 \<Longrightarrow> y mod 4 = 0" by (rule mod_coarser [of 4 100]) simp_all
  have m2: "y mod 400 = 0 \<Longrightarrow> y mod 100 = 0" by (rule mod_coarser [of 100 400]) simp_all
  have "DayFromYear (y + 1) =
      365 * (y + 1 - 1970) + (y + 1 - 1969) div 4 - (y + 1 - 1901) div 100 + (y + 1 - 1601) div 400"
    by (simp only: DayFromYear_def)
  also have "\<dots> = DayFromYear y + 365 + (if y mod 4 = 0 then 1 else 0)
      - (if y mod 100 = 0 then 1 else 0) + (if y mod 400 = 0 then 1 else 0)"
    unfolding d4 d100 d400 DayFromYear_def by simp
  also have "\<dots> = DayFromYear y + DaysInYear y"
    using m1 m2 by (simp add: DaysInYear_def)
  finally show ?thesis .
qed

lemma DaysInYear_cases: "DaysInYear y = 365 \<or> DaysInYear y = 366"
  by (simp add: DaysInYear_def)

termination year_search
proof (relation "measure (\<lambda>(d, y). nat (d - DayFromYear (y + 1) + 1))")
  show "wf (measure (\<lambda>(d, y). nat (d - DayFromYear (y + 1) + 1)))" by simp
next
  fix d y :: int
  assume "DayFromYear (y + 1) \<le> d"
  moreover have "DayFromYear (y + 1 + 1) > DayFromYear (y + 1)"
    using DayFromYear_step [of "y + 1"] DaysInYear_cases [of "y + 1"] by linarith
  ultimately show "((d, y + 1), (d, y)) \<in> measure (\<lambda>(d, y). nat (d - DayFromYear (y + 1) + 1))"
    by simp
qed

declare year_search.simps [simp del]

definition YearFromDay :: "int \<Rightarrow> int" where
  "YearFromDay d = year_search d (1970 + (if 0 \<le> d then d div 366 else d div 365))"

definition YearFromTime :: "int \<Rightarrow> int" where
  "YearFromTime t = YearFromDay (Day t)"

definition InLeapYear :: "int \<Rightarrow> bool" where
  "InLeapYear t = (DaysInYear (YearFromTime t) = 366)"

definition DayWithinYear :: "int \<Rightarrow> int" where
  "DayWithinYear t = Day t - DayFromYear (YearFromTime t)"

text \<open>
  The day within the year on which month \<open>m\<close> (0 to 11) begins, and the month that a
  day within the year falls in.
\<close>

definition month_start :: "bool \<Rightarrow> int \<Rightarrow> int" where
  "month_start leap m =
     (let l = (if leap then 1 else 0)
      in if m = 0 then 0
         else if m = 1 then 31
         else if m = 2 then 59 + l
         else if m = 3 then 90 + l
         else if m = 4 then 120 + l
         else if m = 5 then 151 + l
         else if m = 6 then 181 + l
         else if m = 7 then 212 + l
         else if m = 8 then 243 + l
         else if m = 9 then 273 + l
         else if m = 10 then 304 + l
         else 334 + l)"

definition month_of_day :: "bool \<Rightarrow> int \<Rightarrow> int" where
  "month_of_day leap dwy =
     (let l = (if leap then 1 else 0)
      in if dwy < 31 then 0
         else if dwy < 59 + l then 1
         else if dwy < 90 + l then 2
         else if dwy < 120 + l then 3
         else if dwy < 151 + l then 4
         else if dwy < 181 + l then 5
         else if dwy < 212 + l then 6
         else if dwy < 243 + l then 7
         else if dwy < 273 + l then 8
         else if dwy < 304 + l then 9
         else if dwy < 334 + l then 10
         else 11)"

definition MonthFromTime :: "int \<Rightarrow> int" where
  "MonthFromTime t = month_of_day (InLeapYear t) (DayWithinYear t)"

definition DateFromTime :: "int \<Rightarrow> int" where
  "DateFromTime t = DayWithinYear t - month_start (InLeapYear t) (MonthFromTime t) + 1"

definition WeekDay :: "int \<Rightarrow> int" where
  "WeekDay t = (Day t + 4) mod 7"

definition HourFromTime :: "int \<Rightarrow> int" where
  "HourFromTime t = (t div 3600000) mod 24"

definition MinFromTime :: "int \<Rightarrow> int" where
  "MinFromTime t = (t div 60000) mod 60"

definition SecFromTime :: "int \<Rightarrow> int" where
  "SecFromTime t = (t div 1000) mod 60"

definition msFromTime :: "int \<Rightarrow> int" where
  "msFromTime t = t mod 1000"

text \<open>
  \<open>MakeDay\<close>: the day number of a year, a month index (any integer: twelve months carry
  a year) and a day of the month (any integer: it is added as an offset). Arguments
  that are not finite give \<open>NaN\<close>.
\<close>

fun MakeDay :: "jsnum \<Rightarrow> jsnum \<Rightarrow> jsnum \<Rightarrow> jsnum" where
  "MakeDay (Fin y) (Fin m) (Fin dt) =
     (let ym = trunc y + trunc m div 12;
          mn = trunc m mod 12
      in Fin (of_int (DayFromYear ym + month_start (DaysInYear ym = 366) mn + trunc dt - 1)))"
| "MakeDay _ _ _ = NaN"

text \<open>\<open>TimeClip\<close>, giving the time value a \<open>Date\<close> object stores.\<close>

fun TimeClip :: "jsnum \<Rightarrow> jsdate" where
  "TimeClip (Fin x) = (if 8640000000000000 < \<bar>x\<bar> then InvalidDate else TimeValue (trunc x))"
| "TimeClip _ = InvalidDate"

text \<open>The time value of a \<open>Date\<close> as a number (\<open>getTime\<close>, \<open>valueOf\<close>).\<close>

fun getTime :: "jsdate \<Rightarrow> jsnum" where
  "getTime InvalidDate = NaN"
| "getTime (TimeValue t) = Fin (of_int t)"

text \<open>
  \<open>Date.UTC(year, month, date)\<close>, with the hours, minutes, seconds and milliseconds
  left out (they are 0). A year that truncates to 0..99 means 1900..1999.
\<close>

definition Date_UTC :: "jsnum \<Rightarrow> jsnum \<Rightarrow> jsnum \<Rightarrow> jsnum" where
  "Date_UTC y m dt =
     (let yr = (case y of
                  Fin a \<Rightarrow> if 0 \<le> trunc a \<and> trunc a \<le> 99 then Fin (of_int (1900 + trunc a)) else y
                | _ \<Rightarrow> y)
      in getTime (TimeClip (js_mul (MakeDay yr m dt) (Fin (of_int msPerDay)))))"

text \<open>\<open>new Date(n)\<close> for a number \<open>n\<close>.\<close>

definition new_Date :: "jsnum \<Rightarrow> jsdate" where
  "new_Date n = TimeClip n"

fun getUTCFullYear :: "jsdate \<Rightarrow> jsnum" where
  "getUTCFullYear InvalidDate = NaN"
| "getUTCFullYear (TimeValue t) = Fin (of_int (YearFromTime t))"

fun getUTCMonth :: "jsdate \<Rightarrow> jsnum" where
  "getUTCMonth InvalidDate = NaN"
| "getUTCMonth (TimeValue t) = Fin (of_int (MonthFromTime t))"

fun getUTCDate :: "jsdate \<Rightarrow> jsnum" where
  "getUTCDate InvalidDate = NaN"
| "getUTCDate (TimeValue t) = Fin (of_int (DateFromTime t))"

fun getUTCDay :: "jsdate \<Rightarrow> jsnum" where
  "getUTCDay InvalidDate = NaN"
| "getUTCDay (TimeValue t) = Fin (of_int (WeekDay t))"

text \<open>
  \<open>toISOString\<close>: \<open>YYYY-MM-DDTHH:mm:ss.sssZ\<close>, the year with four digits when it is in
  0..9999 and with a sign and six digits otherwise. An Invalid Date raises a
  \<open>RangeError\<close>.
\<close>

datatype error = TypeError | RangeError

definition digit_char :: "int \<Rightarrow> char" where
  "digit_char k = char_of (48 + k)"

fun pad_digits :: "nat \<Rightarrow> int \<Rightarrow> string" where
  "pad_digits 0 k = []"
| "pad_digits (Suc w) k = pad_digits w (k div 10) @ [digit_char (k mod 10)]"

definition iso_year :: "int \<Rightarrow> string" where
  "iso_year y =
     (if 0 \<le> y \<and> y \<le> 9999 then pad_digits 4 y
      else if 0 \<le> y then CHR ''+'' # pad_digits 6 y
      else CHR ''-'' # pad_digits 6 (- y))"

fun toISOString :: "jsdate \<Rightarrow> error + string" where
  "toISOString InvalidDate = Inl RangeError"
| "toISOString (TimeValue t) =
     Inr (iso_year (YearFromTime t) @ ''-'' @ pad_digits 2 (MonthFromTime t + 1) @ ''-''
          @ pad_digits 2 (DateFromTime t) @ ''T'' @ pad_digits 2 (HourFromTime t) @ '':''
          @ pad_digits 2 (MinFromTime t) @ '':'' @ pad_digits 2 (SecFromTime t) @ ''.''
          @ pad_digits 3 (msFromTime t) @ ''Z'')"

section \<open>Values and conversions\<close>

text \<open>
  The values that reach the planner's calculations: what a settings field, a ledger
  field or a function argument can hold after the stored state has been read back.
\<close>

datatype jsval = JUndefined | JNull | JBool bool | JNum jsnum | JStr string | JDate jsdate

fun ToBoolean :: "jsval \<Rightarrow> bool" where
  "ToBoolean JUndefined = False"
| "ToBoolean JNull = False"
| "ToBoolean (JBool b) = b"
| "ToBoolean (JNum n) = num_truthy n"
| "ToBoolean (JStr s) = (s \<noteq> [])"
| "ToBoolean (JDate d) = True"

text \<open>\<open>Number(v)\<close>; a \<open>Date\<close> converts to its time value.\<close>

fun ToNumber :: "jsval \<Rightarrow> jsnum" where
  "ToNumber JUndefined = NaN"
| "ToNumber JNull = Fin 0"
| "ToNumber (JBool b) = Fin (if b then 1 else 0)"
| "ToNumber (JNum n) = n"
| "ToNumber (JStr s) = StringToNumber s"
| "ToNumber (JDate d) = getTime d"

text \<open>
  The relational operators as the planner uses them, on dates and \<open>null\<close>: both sides
  are converted to numbers (no comparison in the code has a string on both sides).
\<close>

definition val_lt :: "jsval \<Rightarrow> jsval \<Rightarrow> bool" where
  "val_lt a b = js_lt (ToNumber a) (ToNumber b)"

definition val_le :: "jsval \<Rightarrow> jsval \<Rightarrow> bool" where
  "val_le a b = js_le (ToNumber a) (ToNumber b)"

definition val_gt :: "jsval \<Rightarrow> jsval \<Rightarrow> bool" where
  "val_gt a b = js_gt (ToNumber a) (ToNumber b)"

definition val_ge :: "jsval \<Rightarrow> jsval \<Rightarrow> bool" where
  "val_ge a b = js_ge (ToNumber a) (ToNumber b)"

text \<open>Sequencing of calls that may throw.\<close>

fun ebind :: "error + 'a \<Rightarrow> ('a \<Rightarrow> error + 'b) \<Rightarrow> error + 'b" where
  "ebind (Inl e) f = Inl e"
| "ebind (Inr x) f = f x"

section \<open>Helpers and date utilities\<close>

definition MS_PER_DAY :: jsnum where
  "MS_PER_DAY = Fin 86400000"

text \<open>
  \<open>toDateOnlyUTC\<close>: a falsy argument gives \<open>null\<close>; a string is split at the dashes and
  its first three pieces, as numbers, go to \<open>Date.UTC\<close>; anything else is taken to be a
  \<open>Date\<close> (calling \<open>getUTCFullYear\<close> on a value that has no such method throws).
\<close>

definition toDateOnlyUTC :: "jsval \<Rightarrow> error + jsval" where
  "toDateOnlyUTC v =
     (if \<not> ToBoolean v then Inr JNull
      else case v of
             JStr s \<Rightarrow>
               (let parts = map StringToNumber (split_on CHR ''-'' s);
                    y = elem_num parts 0;
                    m = elem_num parts 1;
                    dd = elem_num parts 2
                in Inr (JDate (new_Date (Date_UTC y (js_sub m (Fin 1)) dd))))
           | JDate d \<Rightarrow>
               Inr (JDate (new_Date (Date_UTC (getUTCFullYear d) (getUTCMonth d) (getUTCDate d))))
           | _ \<Rightarrow> Inl TypeError)"

text \<open>\<open>ymd\<close>: the first ten characters of \<open>toISOString\<close>.\<close>

fun ymd :: "jsval \<Rightarrow> error + string" where
  "ymd (JDate d) = (case toISOString d of Inl e \<Rightarrow> Inl e | Inr s \<Rightarrow> Inr (take 10 s))"
| "ymd _ = Inl TypeError"

definition clampDate :: "jsval \<Rightarrow> error + jsval" where
  "clampDate d = ebind (toDateOnlyUTC d) (\<lambda>x. ebind (ymd x) (\<lambda>s. toDateOnlyUTC (JStr s)))"

fun addDays :: "jsval \<Rightarrow> jsnum \<Rightarrow> error + jsval" where
  "addDays (JDate d) n = Inr (JDate (new_Date (js_add (getTime d) (js_mul n MS_PER_DAY))))"
| "addDays _ n = Inl TypeError"

definition daysBetween :: "jsval \<Rightarrow> jsval \<Rightarrow> error + jsnum" where
  "daysBetween a b =
     ebind (clampDate b) (\<lambda>cb. ebind (clampDate a) (\<lambda>ca.
       Inr (Math_floor (js_div (js_sub (ToNumber cb) (ToNumber ca)) MS_PER_DAY))))"

fun date_getUTCDay :: "jsval \<Rightarrow> error + jsnum" where
  "date_getUTCDay (JDate d) = Inr (getUTCDay d)"
| "date_getUTCDay _ = Inl TypeError"

definition isWeekday :: "jsval \<Rightarrow> error + bool" where
  "isWeekday date =
     ebind (clampDate date) (\<lambda>c. ebind (date_getUTCDay c) (\<lambda>wd.
       Inr (wd \<noteq> Fin 0 \<and> wd \<noteq> Fin 6)))"

text \<open>
  The loop of \<open>weekdaysBetweenInclusive\<close>: \<open>d\<close> runs from \<open>from\<close> in steps of one day
  while \<open>d <= to\<close>.
\<close>

function weekdays_loop :: "jsval \<Rightarrow> jsval \<Rightarrow> jsnum \<Rightarrow> error + jsnum" where
  "weekdays_loop d to days =
     (if val_le d to then
        (case isWeekday d of
           Inl e \<Rightarrow> Inl e
         | Inr w \<Rightarrow>
             (case addDays d (Fin 1) of
                Inl e \<Rightarrow> Inl e
              | Inr d' \<Rightarrow> weekdays_loop d' to (if w then js_add days (Fin 1) else days)))
      else Inr days)"
  by pat_completeness auto

lemma trunc_of_int [simp]: "trunc (of_int k) = k"
  by (simp add: trunc_def)

lemma TimeClip_of_int:
  "TimeClip (Fin (of_int k)) = (if 8640000000000000 < \<bar>k\<bar> then InvalidDate else TimeValue k)"
proof -
  have "\<bar>real_of_int k\<bar> = of_int \<bar>k\<bar>" by simp
  then have "(8640000000000000 < \<bar>real_of_int k\<bar>) = (8640000000000000 < \<bar>k\<bar>)"
    by (simp only: of_int_numeral_less_iff)
  then show ?thesis by (simp only: TimeClip.simps trunc_of_int)
qed

lemma addDays_one_TimeValue:
  assumes "addDays d (Fin 1) = Inr d'" and "ToNumber d \<noteq> NaN"
  shows "\<exists>t. d = JDate (TimeValue t) \<and>
     (d' = JDate InvalidDate \<or> (d' = JDate (TimeValue (t + 86400000)) \<and> t < 8640000000000000))"
proof -
  from assms(1) obtain dd where d: "d = JDate dd" by (cases d) simp_all
  with assms(2) obtain t where dd: "dd = TimeValue t" by (cases dd) simp_all
  have s: "js_add (getTime dd) (js_mul (Fin 1) MS_PER_DAY) = Fin (of_int (t + 86400000))"
    by (simp add: dd MS_PER_DAY_def)
  have "d' = JDate (TimeClip (Fin (of_int (t + 86400000))))"
    using assms(1) unfolding d addDays.simps new_Date_def s by simp
  then have "d' = JDate (if 8640000000000000 < \<bar>t + 86400000\<bar> then InvalidDate
      else TimeValue (t + 86400000))"
    by (simp only: TimeClip_of_int)
  then show ?thesis using d dd by (cases "8640000000000000 < \<bar>t + 86400000\<bar>") auto
qed

termination weekdays_loop
proof (relation "measure (\<lambda>(d, to, days).
    case d of JDate (TimeValue t) \<Rightarrow> nat (8640000000000000 - t) + 1 | _ \<Rightarrow> 0)")
  show "wf (measure (\<lambda>(d, to, days).
    case d of JDate (TimeValue t) \<Rightarrow> nat (8640000000000000 - t) + 1 | _ \<Rightarrow> 0))" by simp
next
  fix d to :: jsval and days :: jsnum and w :: bool and d' :: jsval
  assume le: "val_le d to" and "isWeekday d = Inr w" and a: "addDays d (Fin 1) = Inr d'"
  from le have "ToNumber d \<noteq> NaN" by (simp add: val_le_def js_le_def)
  from addDays_one_TimeValue [OF a this]
  show "((d', to, if w then js_add days (Fin 1) else days), (d, to, days))
      \<in> measure (\<lambda>(d, to, days).
          case d of JDate (TimeValue t) \<Rightarrow> nat (8640000000000000 - t) + 1 | _ \<Rightarrow> 0)"
    by auto
qed

declare weekdays_loop.simps [simp del]

definition weekdaysBetweenInclusive :: "jsval \<Rightarrow> jsval \<Rightarrow> error + jsnum" where
  "weekdaysBetweenInclusive fromDate toDate =
     ebind (clampDate fromDate) (\<lambda>from. ebind (clampDate toDate) (\<lambda>to.
       if val_lt to from then Inr (Fin 0) else weekdays_loop from to (Fin 0)))"

section \<open>Pay schedules\<close>

definition countPaydays :: "jsval \<Rightarrow> jsval \<Rightarrow> jsnum \<Rightarrow> error + jsnum" where
  "countPaydays firstPayday targetDate freqDays =
     ebind (clampDate firstPayday) (\<lambda>start. ebind (clampDate targetDate) (\<lambda>end.
       if val_lt end start then Inr (Fin 0)
       else ebind (daysBetween start end) (\<lambda>diffDays.
         Inr (js_add (Math_floor (js_div diffDays freqDays)) (Fin 1)))))"

definition nextPaydayOnOrAfter :: "jsval \<Rightarrow> jsval \<Rightarrow> jsnum \<Rightarrow> error + jsval" where
  "nextPaydayOnOrAfter date firstPayday freqDays =
     ebind (clampDate date) (\<lambda>d. ebind (clampDate firstPayday) (\<lambda>first.
       if val_le d first then Inr first
       else ebind (daysBetween first d) (\<lambda>diff.
         addDays first (js_mul (Math_ceil (js_div diff freqDays)) freqDays))))"

text \<open>
  The loop of \<open>getPaydaysBetween\<close> pushes \<open>pay\<close> and steps it by \<open>freqDays\<close> while
  \<open>pay <= end\<close>. With a step that does not move \<open>pay\<close> it never ends: not returning is
  the result \<open>None\<close>.
\<close>

partial_function (option) paydays_loop ::
  "jsval \<Rightarrow> jsval \<Rightarrow> jsnum \<Rightarrow> jsval list \<Rightarrow> (error + jsval list) option" where
  "paydays_loop pay end freqDays out =
     (if val_le pay end then
        (case addDays pay freqDays of
           Inl e \<Rightarrow> Some (Inl e)
         | Inr pay' \<Rightarrow> paydays_loop pay' end freqDays (out @ [pay]))
      else Some (Inr out))"

declare paydays_loop.simps [code]

definition getPaydaysBetween ::
  "jsval \<Rightarrow> jsval \<Rightarrow> jsval \<Rightarrow> jsnum \<Rightarrow> (error + jsval list) option" where
  "getPaydaysBetween startDate endDate firstPayday freqDays =
     (case clampDate startDate of
        Inl e \<Rightarrow> Some (Inl e)
      | Inr start \<Rightarrow>
          (case clampDate endDate of
             Inl e \<Rightarrow> Some (Inl e)
           | Inr end \<Rightarrow>
               (case nextPaydayOnOrAfter start firstPayday freqDays of
                  Inl e \<Rightarrow> Some (Inl e)
                | Inr pay \<Rightarrow> paydays_loop pay end freqDays [])))"

section \<open>State\<close>

text \<open>
  The planner's state: the settings and the two ledgers. The revision with holiday
  logic also keeps single-day leave entries (\<open>pto\<close>); the other revisions have no such
  field and never read it. A field holds whatever the stored document held.
\<close>

record ptoRange =
  range_from :: jsval
  range_to :: jsval
  range_hours :: jsval
  range_note :: jsval

record credit =
  credit_date :: jsval
  credit_hours :: jsval
  credit_note :: jsval

record ptoEntry =
  pto_date :: jsval
  pto_hours :: jsval

record state =
  startDate :: jsval
  startBalance :: jsval
  accrualPerPeriod :: jsval
  firstPayday :: jsval
  payFrequencyDays :: jsval
  pto :: "ptoEntry list"
  ptoRanges :: "ptoRange list"
  credits :: "credit list"

definition DEFAULTS :: state where
  "DEFAULTS =
     \<lparr> startDate = JStr ''2026-01-01'',
       startBalance = JNum (Fin (- 15.78)),
       accrualPerPeriod = JNum (Fin 4.61),
       firstPayday = JStr ''2026-01-08'',
       payFrequencyDays = JNum (Fin 14),
       pto = [],
       ptoRanges = [],
       credits = [] \<rparr>"

section \<open>Core calculations\<close>

text \<open>
  One round of the loop of \<open>ptoHoursUpTo\<close>: the hours a range adds, or \<open>None\<close> when the
  range is skipped by \<open>continue\<close>.
\<close>

definition ptoRange_hours :: "jsval \<Rightarrow> ptoRange \<Rightarrow> error + jsnum option" where
  "ptoRange_hours target r =
     ebind (toDateOnlyUTC (range_from r)) (\<lambda>from. ebind (toDateOnlyUTC (range_to r)) (\<lambda>to.
       if val_gt from target then Inr None
       else ebind (weekdaysBetweenInclusive from (if val_le to target then to else target))
              (\<lambda>n. Inr (Some (js_mul n (Fin 8))))))"

fun ptoHours_loop :: "jsval \<Rightarrow> ptoRange list \<Rightarrow> jsnum \<Rightarrow> error + jsnum" where
  "ptoHours_loop target [] hours = Inr hours"
| "ptoHours_loop target (r # rs) hours =
     (case ptoRange_hours target r of
        Inl e \<Rightarrow> Inl e
      | Inr None \<Rightarrow> ptoHours_loop target rs hours
      | Inr (Some h) \<Rightarrow> ptoHours_loop target rs (js_add hours h))"

definition ptoHoursUpTo :: "state \<Rightarrow> jsval \<Rightarrow> error + jsnum" where
  "ptoHoursUpTo st targetDateStr =
     ebind (toDateOnlyUTC targetDateStr) (\<lambda>target. ptoHours_loop target (ptoRanges st) (Fin 0))"

text \<open>\<open>Math.max(0, Number(h) || 0)\<close>.\<close>

definition clamp_hours :: "jsval \<Rightarrow> jsnum" where
  "clamp_hours h = Math_max (Fin 0) (js_or (ToNumber h) (Fin 0))"

fun creditHours_loop :: "jsval \<Rightarrow> credit list \<Rightarrow> jsnum \<Rightarrow> error + jsnum" where
  "creditHours_loop target [] hours = Inr hours"
| "creditHours_loop target (c # cs) hours =
     (case toDateOnlyUTC (credit_date c) of
        Inl e \<Rightarrow> Inl e
      | Inr d \<Rightarrow>
          creditHours_loop target cs
            (if val_le d target then js_add hours (clamp_hours (credit_hours c)) else hours))"

definition creditHoursUpTo :: "state \<Rightarrow> jsval \<Rightarrow> error + jsnum" where
  "creditHoursUpTo st targetDateStr =
     ebind (toDateOnlyUTC targetDateStr) (\<lambda>target. creditHours_loop target (credits st) (Fin 0))"

definition getBalanceOn :: "state \<Rightarrow> jsval \<Rightarrow> error + jsnum" where
  "getBalanceOn st targetDateStr =
     ebind (toDateOnlyUTC targetDateStr) (\<lambda>target.
     ebind (toDateOnlyUTC (firstPayday st)) (\<lambda>firstPayday.
       let accrual = js_or (ToNumber (accrualPerPeriod st)) (Fin 0);
           freq = js_or (ToNumber (payFrequencyDays st)) (Fin 14);
           bal = js_or (ToNumber (startBalance st)) (Fin 0)
       in ebind (if val_ge target firstPayday
                 then ebind (countPaydays firstPayday target freq)
                        (\<lambda>periods. Inr (js_add bal (js_mul periods accrual)))
                 else Inr bal) (\<lambda>bal1.
          ebind (ptoHoursUpTo st targetDateStr) (\<lambda>p.
          ebind (creditHoursUpTo st targetDateStr) (\<lambda>c.
            Inr (js_add (js_sub bal1 p) c))))))"

section \<open>Forecast\<close>

text \<open>
  A point of the forecast series, and the loop of \<open>forecastSeries\<close>: \<open>i\<close> counts up from
  0 while \<open>i <= days\<close>. The loop ends at the latest when \<open>addDays\<close> leaves the range of
  dates, because \<open>ymd\<close> then throws. The revision with holiday logic has the same loop
  under the name \<open>generateForecastSeries\<close>, around its own \<open>getBalanceOn\<close>; the loop takes
  the balance function as a parameter.
\<close>

record point =
  point_date :: jsval
  point_y :: jsnum

function forecast_loop ::
  "(jsval \<Rightarrow> error + jsnum) \<Rightarrow> jsval \<Rightarrow> jsnum \<Rightarrow> int \<Rightarrow> point list \<Rightarrow> error + point list" where
  "forecast_loop balanceOn start days i series =
     (if js_le (Fin (of_int i)) days then
        (case addDays start (Fin (of_int i)) of
           Inl e \<Rightarrow> Inl e
         | Inr d \<Rightarrow>
             (case ymd d of
                Inl e \<Rightarrow> Inl e
              | Inr s \<Rightarrow>
                  (case balanceOn (JStr s) of
                     Inl e \<Rightarrow> Inl e
                   | Inr y \<Rightarrow>
                       forecast_loop balanceOn start days (i + 1)
                         (series @ [\<lparr> point_date = d, point_y = y \<rparr>]))))
      else Inr series)"
  by pat_completeness auto

lemma forecast_step_bound:
  assumes "addDays start (Fin (of_int i)) = Inr d" and "ymd d = Inr s"
  shows "\<exists>t. start = JDate (TimeValue t) \<and> t + i * 86400000 \<le> 8640000000000000"
proof -
  from assms(1) obtain dd where sd: "start = JDate dd" by (cases start) simp_all
  show ?thesis
  proof (cases dd)
    case InvalidDate
    then have "d = JDate InvalidDate"
      using assms(1) by (simp add: sd new_Date_def)
    with assms(2) show ?thesis by simp
  next
    case (TimeValue t)
    have "js_add (getTime dd) (js_mul (Fin (of_int i)) MS_PER_DAY) = Fin (of_int (t + i * 86400000))"
      by (simp add: TimeValue MS_PER_DAY_def)
    then have "d = JDate (TimeClip (Fin (of_int (t + i * 86400000))))"
      using assms(1) unfolding sd addDays.simps new_Date_def by simp
    then have d: "d = JDate (if 8640000000000000 < \<bar>t + i * 86400000\<bar> then InvalidDate
        else TimeValue (t + i * 86400000))"
      by (simp only: TimeClip_of_int)
    have "\<not> 8640000000000000 < \<bar>t + i * 86400000\<bar>"
    proof
      assume "8640000000000000 < \<bar>t + i * 86400000\<bar>"
      with d have "d = JDate InvalidDate" by simp
      with assms(2) show False by simp
    qed
    then show ?thesis using sd TimeValue by auto
  qed
qed

termination forecast_loop
proof (relation "measure (\<lambda>(balanceOn, start, days, i, series).
    case start of
      JDate (TimeValue t) \<Rightarrow> nat ((8640000000000000 - t) div 86400000 + 1 - i)
    | _ \<Rightarrow> 0)")
  show "wf (measure (\<lambda>(balanceOn, start, days, i, series).
    case start of
      JDate (TimeValue t) \<Rightarrow> nat ((8640000000000000 - t) div 86400000 + 1 - i)
    | _ \<Rightarrow> 0))" by simp
next
  fix balanceOn :: "jsval \<Rightarrow> error + jsnum" and start d :: jsval and days y :: jsnum and i :: int
    and series :: "point list" and s :: string
  assume "addDays start (Fin (of_int i)) = Inr d" and "ymd d = Inr s"
  from forecast_step_bound [OF this] obtain t where
    sd: "start = JDate (TimeValue t)" and b: "t + i * 86400000 \<le> 8640000000000000"
    by blast
  from b have "i * 86400000 \<le> 8640000000000000 - t" by linarith
  then have "(i * 86400000) div 86400000 \<le> (8640000000000000 - t) div 86400000"
    by (rule zdiv_mono1) simp
  then have "i \<le> (8640000000000000 - t) div 86400000" by simp
  then show "((balanceOn, start, days, i + 1, series @ [\<lparr> point_date = d, point_y = y \<rparr>]),
        (balanceOn, start, days, i, series))
      \<in> measure (\<lambda>(balanceOn, start, days, i, series).
          case start of
            JDate (TimeValue t) \<Rightarrow> nat ((8640000000000000 - t) div 86400000 + 1 - i)
          | _ \<Rightarrow> 0)"
    using sd by simp
qed

declare forecast_loop.simps [simp del]

definition forecastSeries :: "state \<Rightarrow> jsval \<Rightarrow> jsnum \<Rightarrow> error + point list" where
  "forecastSeries st start days = forecast_loop (getBalanceOn st) start days 0 []"

section \<open>The revision with holiday logic\<close>

text \<open>
  One revision of the planner leaves the observed U.S. federal holidays out of the
  leave hours. Its date and pay-schedule helpers are those above (\<open>clampDate\<close> is called
  \<open>clampToDateOnly\<close> there); its own functions follow.
\<close>

definition clampToDateOnly :: "jsval \<Rightarrow> error + jsval" where
  "clampToDateOnly d = ebind (toDateOnlyUTC d) (\<lambda>x. ebind (ymd x) (\<lambda>s. toDateOnlyUTC (JStr s)))"

definition nthWeekdayOfMonth :: "jsnum \<Rightarrow> jsnum \<Rightarrow> jsnum \<Rightarrow> jsnum \<Rightarrow> jsdate" where
  "nthWeekdayOfMonth year monthIndex weekday n =
     (let first = new_Date (Date_UTC year monthIndex (Fin 1));
          firstWeekday = getUTCDay first;
          offset = js_rem (js_sub (js_add (Fin 7) weekday) firstWeekday) (Fin 7)
      in new_Date (Date_UTC year monthIndex
           (js_add (js_add (Fin 1) offset) (js_mul (Fin 7) (js_sub n (Fin 1))))))"

definition lastWeekdayOfMonth :: "jsnum \<Rightarrow> jsnum \<Rightarrow> jsnum \<Rightarrow> error + jsval" where
  "lastWeekdayOfMonth year monthIndex weekday =
     (let firstNext = new_Date (Date_UTC year (js_add monthIndex (Fin 1)) (Fin 1))
      in ebind (addDays (JDate firstNext) (Fin (- 1))) (\<lambda>last.
         ebind (date_getUTCDay last) (\<lambda>lastWeekday.
           addDays last
             (js_neg (js_rem (js_sub (js_add (Fin 7) lastWeekday) weekday) (Fin 7))))))"

definition observedFixed :: "jsnum \<Rightarrow> jsnum \<Rightarrow> jsnum \<Rightarrow> jsdate" where
  "observedFixed year monthIndex day =
     (let d = new_Date (Date_UTC year monthIndex day);
          wd = getUTCDay d
      in if wd = Fin 0 then new_Date (Date_UTC year monthIndex (js_add day (Fin 1)))
         else if wd = Fin 6 then new_Date (Date_UTC year monthIndex (js_sub day (Fin 1)))
         else d)"

text \<open>
  The dates that \<open>federalHolidaySetForYear\<close> pushes, in the order of the code, and the
  pushes themselves: \<open>ymd\<close> of each date goes into the set.
\<close>

definition holiday_dates :: "jsnum \<Rightarrow> (error + jsval) list" where
  "holiday_dates year =
     [Inr (JDate (observedFixed year (Fin 0) (Fin 1))),
      Inr (JDate (nthWeekdayOfMonth year (Fin 0) (Fin 1) (Fin 3))),
      Inr (JDate (nthWeekdayOfMonth year (Fin 1) (Fin 1) (Fin 3))),
      lastWeekdayOfMonth year (Fin 4) (Fin 1),
      Inr (JDate (observedFixed year (Fin 5) (Fin 19))),
      Inr (JDate (observedFixed year (Fin 6) (Fin 4))),
      Inr (JDate (nthWeekdayOfMonth year (Fin 8) (Fin 1) (Fin 1))),
      Inr (JDate (nthWeekdayOfMonth year (Fin 9) (Fin 1) (Fin 2))),
      Inr (JDate (observedFixed year (Fin 10) (Fin 11))),
      Inr (JDate (nthWeekdayOfMonth year (Fin 10) (Fin 4) (Fin 4))),
      Inr (JDate (observedFixed year (Fin 11) (Fin 25)))]"

fun push_all :: "(error + jsval) list \<Rightarrow> string set \<Rightarrow> error + string set" where
  "push_all [] acc = Inr acc"
| "push_all (d # ds) acc =
     (case d of
        Inl e \<Rightarrow> Inl e
      | Inr v \<Rightarrow>
          (case ymd v of
             Inl e \<Rightarrow> Inl e
           | Inr s \<Rightarrow> push_all ds (insert s acc)))"

definition federalHolidaySetForYear :: "jsnum \<Rightarrow> error + string set" where
  "federalHolidaySetForYear year = push_all (holiday_dates year) {}"

text \<open>
  The loop of \<open>holidaySetForRange\<close> over the years \<open>y\<close>, \<open>y + 1\<close>, ... up to \<open>yearEnd\<close>.
\<close>

function holiday_loop :: "real \<Rightarrow> real \<Rightarrow> string set \<Rightarrow> error + string set" where
  "holiday_loop y yearEnd acc =
     (if y \<le> yearEnd then
        (case federalHolidaySetForYear (Fin y) of
           Inl e \<Rightarrow> Inl e
         | Inr ds \<Rightarrow> holiday_loop (y + 1) yearEnd (acc \<union> ds))
      else Inr acc)"
  by pat_completeness auto
termination
proof (relation "measure (\<lambda>(y, yearEnd, acc). nat (\<lfloor>yearEnd - y\<rfloor> + 1))")
  show "wf (measure (\<lambda>(y, yearEnd, acc). nat (\<lfloor>yearEnd - y\<rfloor> + 1)))" by simp
next
  fix y yearEnd :: real and acc ds :: "string set"
  assume "y \<le> yearEnd"
  then have "0 \<le> \<lfloor>yearEnd - y\<rfloor>" by simp
  moreover have "\<lfloor>yearEnd - (y + 1)\<rfloor> = \<lfloor>yearEnd - y\<rfloor> - 1"
  proof -
    have "yearEnd - (y + 1) = (yearEnd - y) - 1" by simp
    then show ?thesis by (simp only: floor_diff_one)
  qed
  ultimately show "((y + 1, yearEnd, acc \<union> ds), (y, yearEnd, acc))
      \<in> measure (\<lambda>(y, yearEnd, acc). nat (\<lfloor>yearEnd - y\<rfloor> + 1))"
    by simp
qed

declare holiday_loop.simps [simp del]

text \<open>
  \<open>holidaySetForRange\<close>. Its bounds come from \<open>getUTCFullYear\<close>: whole numbers, or \<open>NaN\<close>
  for an Invalid Date, and then the loop does not run. A bound that is infinite cannot
  come from there; the loop then does not run either (a start beyond the end) or runs
  into the \<open>RangeError\<close> that \<open>ymd\<close> throws for a year outside the range of dates.
\<close>

definition holidaySetForRange :: "jsnum \<Rightarrow> jsnum \<Rightarrow> error + string set" where
  "holidaySetForRange yearStart yearEnd =
     (case (yearStart, yearEnd) of
        (Fin a, Fin b) \<Rightarrow> holiday_loop a b {}
      | _ \<Rightarrow> if js_le yearStart yearEnd then Inl RangeError else Inr {})"

definition isBusinessDay :: "jsval \<Rightarrow> string set \<Rightarrow> error + bool" where
  "isBusinessDay date holidaysSet =
     ebind (clampToDateOnly date) (\<lambda>d. ebind (date_getUTCDay d) (\<lambda>wd.
       if wd = Fin 0 \<or> wd = Fin 6 then Inr False
       else ebind (ymd d) (\<lambda>s. Inr (s \<notin> holidaysSet))))"

function business_loop :: "jsval \<Rightarrow> jsval \<Rightarrow> string set \<Rightarrow> jsnum \<Rightarrow> error + jsnum" where
  "business_loop d to holidaysSet days =
     (if val_le d to then
        (case isBusinessDay d holidaysSet of
           Inl e \<Rightarrow> Inl e
         | Inr w \<Rightarrow>
             (case addDays d (Fin 1) of
                Inl e \<Rightarrow> Inl e
              | Inr d' \<Rightarrow>
                  business_loop d' to holidaysSet (if w then js_add days (Fin 1) else days)))
      else Inr days)"
  by pat_completeness auto
termination
proof (relation "measure (\<lambda>(d, to, holidaysSet, days).
    case d of JDate (TimeValue t) \<Rightarrow> nat (8640000000000000 - t) + 1 | _ \<Rightarrow> 0)")
  show "wf (measure (\<lambda>(d, to, holidaysSet, days).
    case d of JDate (TimeValue t) \<Rightarrow> nat (8640000000000000 - t) + 1 | _ \<Rightarrow> 0))" by simp
next
  fix d to :: jsval and holidaysSet :: "string set" and days :: jsnum and w :: bool
    and d' :: jsval
  assume le: "val_le d to" and a: "addDays d (Fin 1) = Inr d'"
  from le have "ToNumber d \<noteq> NaN" by (simp add: val_le_def js_le_def)
  from addDays_one_TimeValue [OF a this]
  show "((d', to, holidaysSet, if w then js_add days (Fin 1) else days), (d, to, holidaysSet, days))
      \<in> measure (\<lambda>(d, to, holidaysSet, days).
          case d of JDate (TimeValue t) \<Rightarrow> nat (8640000000000000 - t) + 1 | _ \<Rightarrow> 0)"
    by auto
qed

declare business_loop.simps [simp del]

definition businessDaysBetweenInclusive :: "jsval \<Rightarrow> jsval \<Rightarrow> string set \<Rightarrow> error + jsnum" where
  "businessDaysBetweenInclusive fromDate toDate holidaysSet =
     ebind (clampToDateOnly fromDate) (\<lambda>from. ebind (clampToDateOnly toDate) (\<lambda>to.
       if val_lt to from then Inr (Fin 0) else business_loop from to holidaysSet (Fin 0)))"

fun date_getUTCFullYear :: "jsval \<Rightarrow> error + jsnum" where
  "date_getUTCFullYear (JDate d) = Inr (getUTCFullYear d)"
| "date_getUTCFullYear _ = Inl TypeError"

text \<open>The two loops of \<open>totalPtoHoursUpTo\<close>: single-day entries, then ranges.\<close>

fun ptoEntries_loop :: "jsval \<Rightarrow> string set \<Rightarrow> ptoEntry list \<Rightarrow> jsnum \<Rightarrow> error + jsnum" where
  "ptoEntries_loop target holidays [] hours = Inr hours"
| "ptoEntries_loop target holidays (e # es) hours =
     (case toDateOnlyUTC (pto_date e) of
        Inl x \<Rightarrow> Inl x
      | Inr d \<Rightarrow>
          if val_le d target then
            (case isBusinessDay d holidays of
               Inl x \<Rightarrow> Inl x
             | Inr b \<Rightarrow>
                 ptoEntries_loop target holidays es
                   (if b then js_add hours (clamp_hours (pto_hours e)) else hours))
          else ptoEntries_loop target holidays es hours)"

definition ptoRange_business_hours :: "jsval \<Rightarrow> string set \<Rightarrow> ptoRange \<Rightarrow> error + jsnum option" where
  "ptoRange_business_hours target holidays r =
     ebind (toDateOnlyUTC (range_from r)) (\<lambda>from. ebind (toDateOnlyUTC (range_to r)) (\<lambda>to.
       if val_gt from target then Inr None
       else ebind (businessDaysBetweenInclusive from (if val_le to target then to else target)
                     holidays)
              (\<lambda>days. Inr (Some (js_mul days (Fin 8))))))"

fun ptoRanges_loop :: "jsval \<Rightarrow> string set \<Rightarrow> ptoRange list \<Rightarrow> jsnum \<Rightarrow> error + jsnum" where
  "ptoRanges_loop target holidays [] hours = Inr hours"
| "ptoRanges_loop target holidays (r # rs) hours =
     (case ptoRange_business_hours target holidays r of
        Inl e \<Rightarrow> Inl e
      | Inr None \<Rightarrow> ptoRanges_loop target holidays rs hours
      | Inr (Some h) \<Rightarrow> ptoRanges_loop target holidays rs (js_add hours h))"

definition totalPtoHoursUpTo :: "state \<Rightarrow> jsval \<Rightarrow> error + jsnum" where
  "totalPtoHoursUpTo st targetDateStr =
     ebind (toDateOnlyUTC targetDateStr) (\<lambda>target.
     ebind (toDateOnlyUTC (startDate st)) (\<lambda>start.
     ebind (date_getUTCFullYear start) (\<lambda>y1.
     ebind (date_getUTCFullYear target) (\<lambda>y2.
     ebind (holidaySetForRange (js_sub (Math_min y1 y2) (Fin 1)) (js_add (Math_max y1 y2) (Fin 1)))
       (\<lambda>holidays.
     ebind (ptoEntries_loop target holidays (pto st) (Fin 0)) (\<lambda>hours.
       ptoRanges_loop target holidays (ptoRanges st) hours))))))"

definition totalCreditsUpTo :: "state \<Rightarrow> jsval \<Rightarrow> error + jsnum" where
  "totalCreditsUpTo st targetDateStr =
     ebind (toDateOnlyUTC targetDateStr) (\<lambda>target. creditHours_loop target (credits st) (Fin 0))"

text \<open>\<open>getBalanceOn\<close> of the revision with holiday logic.\<close>

definition getBalanceOn_holidays :: "state \<Rightarrow> jsval \<Rightarrow> error + jsnum" where
  "getBalanceOn_holidays st targetDateStr =
     ebind (toDateOnlyUTC targetDateStr) (\<lambda>targetDate.
     ebind (toDateOnlyUTC (firstPayday st)) (\<lambda>firstPayday.
       let accrual = js_or (ToNumber (accrualPerPeriod st)) (Fin 0);
           freq = js_or (ToNumber (payFrequencyDays st)) (Fin 14);
           bal = js_or (ToNumber (startBalance st)) (Fin 0)
       in ebind (if val_ge targetDate firstPayday
                 then ebind (countPaydays firstPayday targetDate freq)
                        (\<lambda>periods. Inr (js_add bal (js_mul periods accrual)))
                 else Inr bal) (\<lambda>bal1.
          ebind (totalPtoHoursUpTo st targetDateStr) (\<lambda>p.
          ebind (totalCreditsUpTo st targetDateStr) (\<lambda>c.
            Inr (js_add (js_sub bal1 p) c))))))"

definition generateForecastSeries :: "state \<Rightarrow> jsval \<Rightarrow> jsnum \<Rightarrow> error + point list" where
  "generateForecastSeries st start days = forecast_loop (getBalanceOn_holidays st) start days 0 []"

section \<open>Reading a date from text\<close>

text \<open>
  The numbers that \<open>toDateOnlyUTC\<close> reads from a string, and the strings it cannot read
  a date from: one of the first three pieces is missing or is not a number.
\<close>

definition date_pieces :: "string \<Rightarrow> jsnum list" where
  "date_pieces s = map StringToNumber (split_on CHR ''-'' s)"

definition unparseable :: "string \<Rightarrow> bool" where
  "unparseable s =
     (elem_num (date_pieces s) 0 = NaN \<or> elem_num (date_pieces s) 1 = NaN
      \<or> elem_num (date_pieces s) 2 = NaN)"

lemma MakeDay_NaN: "y = NaN \<or> m = NaN \<or> dt = NaN \<Longrightarrow> MakeDay y m dt = NaN"
  by (cases y; cases m; cases dt) auto

lemma Date_UTC_NaN:
  assumes "y = NaN \<or> m = NaN \<or> dt = NaN"
  shows "new_Date (Date_UTC y m dt) = InvalidDate"
proof -
  have yr: "(case y of
               Fin a \<Rightarrow> if 0 \<le> trunc a \<and> trunc a \<le> 99 then Fin (of_int (1900 + trunc a)) else y
             | _ \<Rightarrow> y) = NaN" if "y = NaN"
    using that by simp
  have "MakeDay (case y of
               Fin a \<Rightarrow> if 0 \<le> trunc a \<and> trunc a \<le> 99 then Fin (of_int (1900 + trunc a)) else y
             | _ \<Rightarrow> y) m dt = NaN"
    using assms yr by (intro MakeDay_NaN) auto
  then show ?thesis by (simp add: Date_UTC_def new_Date_def)
qed

lemma toDateOnlyUTC_string:
  assumes "s \<noteq> []"
  shows "toDateOnlyUTC (JStr s) =
    Inr (JDate (new_Date (Date_UTC (elem_num (date_pieces s) 0)
      (js_sub (elem_num (date_pieces s) 1) (Fin 1)) (elem_num (date_pieces s) 2))))"
  using assms by (simp add: toDateOnlyUTC_def date_pieces_def Let_def)

section \<open>Years and day numbers\<close>

lemma DaysInYear_ge: "365 \<le> DaysInYear y"
  by (simp add: DaysInYear_def)

lemma DaysInYear_le: "DaysInYear y \<le> 366"
  by (simp add: DaysInYear_def)

lemma DayFromYear_less: "DayFromYear y < DayFromYear (y + 1)"
  using DayFromYear_step [of y] DaysInYear_ge [of y] by linarith

lemma DayFromYear_mono: "y \<le> z \<Longrightarrow> DayFromYear y \<le> DayFromYear z"
proof (induction z rule: int_ge_induct)
  case base
  show ?case by simp
next
  case (step i)
  then show ?case using DayFromYear_less [of i] by linarith
qed

lemma DayFromYear_strict_mono: "y < z \<Longrightarrow> DayFromYear y < DayFromYear z"
  using DayFromYear_mono [of "y + 1" z] DayFromYear_less [of y] by linarith

lemma year_search_spec:
  "DayFromYear y \<le> d \<Longrightarrow>
   DayFromYear (year_search d y) \<le> d \<and> d < DayFromYear (year_search d y + 1)"
proof (induction d y rule: year_search.induct)
  case (1 d y)
  show ?case
  proof (cases "DayFromYear (y + 1) \<le> d")
    case True
    with "1.IH" have "DayFromYear (year_search d (y + 1)) \<le> d
        \<and> d < DayFromYear (year_search d (y + 1) + 1)"
      by simp
    moreover have "year_search d y = year_search d (y + 1)"
      using True by (subst year_search.simps) simp
    ultimately show ?thesis by simp
  next
    case False
    then have "year_search d y = y" by (subst year_search.simps) simp
    with False "1.prems" show ?thesis by simp
  qed
qed

lemma DayFromYear_1970: "DayFromYear 1970 = 0"
  by (simp add: DayFromYear_def)

lemma DayFromYear_upper: "0 \<le> k \<Longrightarrow> DayFromYear (1970 + k) \<le> 366 * k"
proof (induction k rule: int_ge_induct)
  case base
  show ?case by (simp add: DayFromYear_1970)
next
  case (step i)
  have "DayFromYear (1970 + (i + 1)) = DayFromYear (1970 + i) + DaysInYear (1970 + i)"
    using DayFromYear_step [of "1970 + i"] by (simp add: add.assoc)
  with step DaysInYear_le [of "1970 + i"] show ?case by arith
qed

lemma DayFromYear_lower: "k \<le> 0 \<Longrightarrow> DayFromYear (1970 + k) \<le> 365 * k"
proof (induction k rule: int_le_induct)
  case base
  show ?case by (simp add: DayFromYear_1970)
next
  case (step i)
  have "DayFromYear (1970 + (i - 1) + 1) = DayFromYear (1970 + (i - 1)) + DaysInYear (1970 + (i - 1))"
    by (rule DayFromYear_step)
  then have "DayFromYear (1970 + i) = DayFromYear (1970 + (i - 1)) + DaysInYear (1970 + (i - 1))"
    by simp
  with step DaysInYear_ge [of "1970 + (i - 1)"] show ?case by arith
qed

lemma year_estimate:
  "DayFromYear (1970 + (if 0 \<le> d then d div 366 else d div 365)) \<le> d"
proof (cases "0 \<le> d")
  case True
  then have "0 \<le> d div 366" by (simp add: pos_imp_zdiv_nonneg_iff)
  from DayFromYear_upper [OF this] have "DayFromYear (1970 + d div 366) \<le> 366 * (d div 366)" .
  moreover have "366 * (d div 366) \<le> d"
    using mult_div_mod_eq [of 366 d] pos_mod_sign [of 366 d] by linarith
  ultimately show ?thesis using True by simp
next
  case False
  then have "d div 365 \<le> 0" using neg_imp_zdiv_neg_iff [of 365 d] by simp
  from DayFromYear_lower [OF this] have "DayFromYear (1970 + d div 365) \<le> 365 * (d div 365)" .
  moreover have "365 * (d div 365) \<le> d"
    using mult_div_mod_eq [of 365 d] pos_mod_sign [of 365 d] by linarith
  ultimately show ?thesis using False by simp
qed

lemma YearFromDay_spec:
  "DayFromYear (YearFromDay d) \<le> d \<and> d < DayFromYear (YearFromDay d + 1)"
  unfolding YearFromDay_def by (rule year_search_spec [OF year_estimate])

lemma YearFromDay_unique:
  assumes "DayFromYear y \<le> d" and "d < DayFromYear (y + 1)"
  shows "YearFromDay d = y"
proof (rule ccontr)
  assume ne: "YearFromDay d \<noteq> y"
  have s: "DayFromYear (YearFromDay d) \<le> d" "d < DayFromYear (YearFromDay d + 1)"
    using YearFromDay_spec [of d] by simp_all
  show False
  proof (cases "YearFromDay d < y")
    case True
    then have "DayFromYear (YearFromDay d + 1) \<le> DayFromYear y"
      by (intro DayFromYear_mono) simp
    with s assms show False by linarith
  next
    case False
    with ne have "y + 1 \<le> YearFromDay d" by simp
    then have "DayFromYear (y + 1) \<le> DayFromYear (YearFromDay d)"
      by (rule DayFromYear_mono)
    with s assms show False by linarith
  qed
qed

definition in_window :: "int \<Rightarrow> bool" where
  "in_window n = (DayFromYear 100 \<le> n \<and> n < DayFromYear 10000)"

lemma in_window_bounds: "in_window n = (- 683003 \<le> n \<and> n < 2932897)"
  by (simp add: in_window_def DayFromYear_def)

lemma in_window_year:
  assumes "in_window n"
  shows "100 \<le> YearFromDay n \<and> YearFromDay n \<le> 9999"
proof -
  have s: "DayFromYear (YearFromDay n) \<le> n" "n < DayFromYear (YearFromDay n + 1)"
    using YearFromDay_spec [of n] by simp_all
  have "100 \<le> YearFromDay n"
  proof (rule ccontr)
    assume "\<not> 100 \<le> YearFromDay n"
    then have "DayFromYear (YearFromDay n + 1) \<le> DayFromYear 100"
      by (intro DayFromYear_mono) simp
    with s assms show False by (simp add: in_window_def)
  qed
  moreover have "YearFromDay n \<le> 9999"
  proof (rule ccontr)
    assume "\<not> YearFromDay n \<le> 9999"
    then have "DayFromYear 10000 \<le> DayFromYear (YearFromDay n)"
      by (intro DayFromYear_mono) simp
    with s assms show False by (simp add: in_window_def)
  qed
  ultimately show ?thesis by simp
qed

lemma month_of_day_range:
  assumes "0 \<le> dwy" and "dwy < (if leap then 366 else 365)"
  shows "0 \<le> month_of_day leap dwy \<and> month_of_day leap dwy \<le> 11"
  by (simp add: month_of_day_def Let_def)

lemma date_in_month_range:
  assumes "0 \<le> dwy" and "dwy < (if leap then 366 else 365)"
  shows "1 \<le> dwy - month_start leap (month_of_day leap dwy) + 1
       \<and> dwy - month_start leap (month_of_day leap dwy) + 1 \<le> 31"
  using assms by (cases leap) (simp_all add: month_of_day_def month_start_def Let_def)

section \<open>Printing and reading back a date\<close>

lemma of_char_digit_char:
  assumes "0 \<le> k" and "k \<le> 9"
  shows "(of_char (digit_char k) :: int) = 48 + k"
proof -
  have "(of_char (digit_char k) :: int) = (48 + k) mod 256"
    by (simp add: digit_char_def)
  also have "\<dots> = 48 + k" using assms by simp
  finally show ?thesis .
qed

lemma is_digit_digit_char: "is_digit (digit_char (k mod 10))"
proof -
  have "0 \<le> k mod 10" by simp
  moreover have "k mod 10 \<le> 9" using pos_mod_bound [of 10 k] by linarith
  ultimately show ?thesis by (simp add: is_digit_def of_char_digit_char)
qed

lemma pad_digits_digits: "list_all is_digit (pad_digits w k)"
  by (induction w arbitrary: k) (simp_all add: is_digit_digit_char)

lemma length_pad_digits [simp]: "length (pad_digits w k) = w"
  by (induction w arbitrary: k) simp_all

lemma decimal_worth_snoc:
  "decimal_worth acc (xs @ [c]) = 10 * decimal_worth acc xs + ((of_char c :: int) - 48)"
  by (induction xs arbitrary: acc) simp_all

lemma decimal_worth_pad: "decimal_worth 0 (pad_digits w k) = k mod 10 ^ w"
proof (induction w arbitrary: k)
  case 0
  show ?case by simp
next
  case (Suc w)
  have d: "(of_char (digit_char (k mod 10)) :: int) - 48 = k mod 10"
    using of_char_digit_char [of "k mod 10"] pos_mod_bound [of 10 k] by simp
  have "decimal_worth 0 (pad_digits (Suc w) k) = 10 * ((k div 10) mod 10 ^ w) + k mod 10"
    by (simp add: decimal_worth_snoc Suc.IH d)
  also have "\<dots> = k mod (10 * 10 ^ w)"
    using zmod_zmult2_eq [of "10 ^ w" k 10] by simp
  finally show ?case by simp
qed

lemma digit_not_ws: "is_digit c \<Longrightarrow> \<not> is_ws c"
  by (auto simp: is_digit_def is_ws_def)

lemma trim_digits:
  assumes "list_all is_digit s"
  shows "trim s = s"
proof (cases "s = []")
  case True
  then show ?thesis by (simp add: trim_def)
next
  case False
  then have "is_digit (hd s)" "is_digit (last s)"
    using assms by (simp_all add: list_all_iff)
  then have h: "\<not> is_ws (hd s)" "\<not> is_ws (last s)" by (simp_all add: digit_not_ws)
  have 1: "dropWhile is_ws s = s" using h(1) by (simp add: dropWhile_eq_self_iff)
  have "hd (rev s) = last s" using False by (simp add: hd_rev)
  then have 2: "dropWhile is_ws (rev s) = rev s" using h(2) by (simp add: dropWhile_eq_self_iff)
  show ?thesis by (simp add: trim_def 1 2)
qed

lemma take2_digits:
  assumes "list_all is_digit s" and "\<not> is_digit c2"
  shows "take 2 s \<noteq> [c1, c2]"
proof
  assume t: "take 2 s = [c1, c2]"
  then have "c2 \<in> set (take 2 s)" by simp
  then have "c2 \<in> set s" by (rule in_set_takeD)
  with assms show False by (simp add: list_all_iff)
qed

lemma read_unsigned_decimal_digits:
  assumes "s \<noteq> []" and "list_all is_digit s"
  shows "read_unsigned_decimal s = Fin (of_int (decimal_worth 0 s))"
proof -
  have "\<not> is_digit CHR ''I''" by (simp add: is_digit_def)
  then have ne: "s \<noteq> ''Infinity''" using assms(2) by auto
  have tw: "takeWhile is_digit s = s" using assms(2) by (simp add: takeWhile_eq_all_conv list_all_iff)
  have dw: "dropWhile is_digit s = []" using assms(2) by (simp add: list_all_iff)
  show ?thesis
    using assms(1) ne
    by (simp add: read_unsigned_decimal_def tw dw decimal_parts_def decimal_tail_def
        decimal_number_def pow10_def)
qed

lemma StringToNumber_digits:
  assumes "s \<noteq> []" and "list_all is_digit s"
  shows "StringToNumber s = Fin (of_int (decimal_worth 0 s))"
proof -
  have nd: "\<not> is_digit CHR ''x''" "\<not> is_digit CHR ''X''" "\<not> is_digit CHR ''o''"
    "\<not> is_digit CHR ''O''" "\<not> is_digit CHR ''b''" "\<not> is_digit CHR ''B''"
    "\<not> is_digit CHR ''+''" "\<not> is_digit CHR ''-''"
    by (simp_all add: is_digit_def)
  have t: "take 2 s \<noteq> ''0x''" "take 2 s \<noteq> ''0X''" "take 2 s \<noteq> ''0o''"
    "take 2 s \<noteq> ''0O''" "take 2 s \<noteq> ''0b''" "take 2 s \<noteq> ''0B''"
    using take2_digits [OF assms(2)] nd by blast+
  obtain c cs where s: "s = c # cs" using assms(1) by (cases s) auto
  have "is_digit c" using assms(2) s by simp
  then have c: "c \<noteq> CHR ''+''" "c \<noteq> CHR ''-''" using nd by auto
  have "read_numeric s =
      (case s of
         [] \<Rightarrow> NaN
       | c # cs \<Rightarrow>
           if c = CHR ''+'' then read_unsigned_decimal cs
           else if c = CHR ''-'' then js_neg (read_unsigned_decimal cs)
           else read_unsigned_decimal s)"
    using t by (simp add: read_numeric_def)
  also have "\<dots> = read_unsigned_decimal s"
    using c by (simp add: s)
  finally have "read_numeric s = read_unsigned_decimal s" .
  then show ?thesis
    using assms by (simp add: StringToNumber_def trim_digits read_unsigned_decimal_digits)
qed

lemma StringToNumber_pad:
  assumes "0 < w" and "0 \<le> k" and "k < 10 ^ w"
  shows "StringToNumber (pad_digits w k) = Fin (of_int k)"
proof -
  have "pad_digits w k \<noteq> []" using assms(1) by (cases w) simp_all
  then have "StringToNumber (pad_digits w k) = Fin (of_int (decimal_worth 0 (pad_digits w k)))"
    by (rule StringToNumber_digits) (rule pad_digits_digits)
  then show ?thesis using assms by (simp add: decimal_worth_pad)
qed

lemma split_on_no_sep: "sep \<notin> set a \<Longrightarrow> split_on sep a = [a]"
  by (induction a) auto

lemma split_on_append:
  "sep \<notin> set a \<Longrightarrow> split_on sep (a @ sep # rest) = a # split_on sep rest"
proof (induction a)
  case Nil
  show ?case by simp
next
  case (Cons c a)
  then show ?case by (cases "split_on sep rest") auto
qed

lemma dash_not_in_pad: "CHR ''-'' \<notin> set (pad_digits w k)"
proof
  assume "CHR ''-'' \<in> set (pad_digits w k)"
  with pad_digits_digits [of w k] have "is_digit CHR ''-''" by (simp add: list_all_iff)
  then show False by (simp add: is_digit_def)
qed

text \<open>The text form \<open>YYYY-MM-DD\<close> of a year, a month number and a day of the month.\<close>

definition ymd_text :: "int \<Rightarrow> int \<Rightarrow> int \<Rightarrow> string" where
  "ymd_text y m d = pad_digits 4 y @ ''-'' @ pad_digits 2 m @ ''-'' @ pad_digits 2 d"

lemma date_pieces_ymd_text:
  assumes "0 \<le> y" "y \<le> 9999" "0 \<le> m" "m \<le> 99" "0 \<le> d" "d \<le> 99"
  shows "date_pieces (ymd_text y m d) = [Fin (of_int y), Fin (of_int m), Fin (of_int d)]"
proof -
  have "split_on CHR ''-'' (ymd_text y m d) = [pad_digits 4 y, pad_digits 2 m, pad_digits 2 d]"
    unfolding ymd_text_def
    by (simp add: split_on_append split_on_no_sep dash_not_in_pad del: pad_digits.simps)
  moreover have "StringToNumber (pad_digits 4 y) = Fin (of_int y)"
    using assms by (intro StringToNumber_pad) simp_all
  moreover have "StringToNumber (pad_digits 2 m) = Fin (of_int m)"
    using assms by (intro StringToNumber_pad) simp_all
  moreover have "StringToNumber (pad_digits 2 d) = Fin (of_int d)"
    using assms by (intro StringToNumber_pad) simp_all
  ultimately show ?thesis by (simp add: date_pieces_def)
qed

section \<open>Normalising a date inside the window\<close>

text \<open>
  \<open>clampDate\<close> prints a date as \<open>YYYY-MM-DD\<close> and reads it back. For the years 100 to
  9999 (the day numbers of \<open>in_window\<close>) the text has a four-digit year that \<open>Date.UTC\<close>
  takes as it stands, and \<open>clampDate\<close> returns the midnight of the same day.
\<close>

text \<open>The \<open>Date\<close> at midnight UTC of day number \<open>n\<close>.\<close>

definition date_of_day :: "int \<Rightarrow> jsval" where
  "date_of_day n = JDate (TimeValue (msPerDay * n))"

lemma Day_msPerDay [simp]: "Day (msPerDay * n) = n"
  by (simp add: Day_def msPerDay_def)

text \<open>The civil date of a day number: year, month index (0 to 11), day of the month.\<close>

definition year_of :: "int \<Rightarrow> int" where
  "year_of n = YearFromDay n"

definition month_of :: "int \<Rightarrow> int" where
  "month_of n = month_of_day (DaysInYear (YearFromDay n) = 366) (n - DayFromYear (YearFromDay n))"

definition mday_of :: "int \<Rightarrow> int" where
  "mday_of n = n - DayFromYear (YearFromDay n)
     - month_start (DaysInYear (YearFromDay n) = 366) (month_of n) + 1"

lemma civil_of_time:
  "YearFromTime t = year_of (Day t)" "MonthFromTime t = month_of (Day t)"
  "DateFromTime t = mday_of (Day t)"
  by (simp_all add: year_of_def month_of_def mday_of_def YearFromTime_def MonthFromTime_def
      DateFromTime_def InLeapYear_def DayWithinYear_def)

lemma day_within_year:
  "0 \<le> n - DayFromYear (YearFromDay n)
   \<and> n - DayFromYear (YearFromDay n) < (if DaysInYear (YearFromDay n) = 366 then 366 else 365)"
proof -
  have "DayFromYear (YearFromDay n) \<le> n" "n < DayFromYear (YearFromDay n + 1)"
    using YearFromDay_spec [of n] by simp_all
  moreover have "DayFromYear (YearFromDay n + 1) = DayFromYear (YearFromDay n) + DaysInYear (YearFromDay n)"
    by (rule DayFromYear_step)
  ultimately show ?thesis using DaysInYear_cases [of "YearFromDay n"] by auto
qed

lemma month_of_range: "0 \<le> month_of n \<and> month_of n \<le> 11"
  unfolding month_of_def using day_within_year [of n] by (intro month_of_day_range) simp_all

lemma mday_of_range: "1 \<le> mday_of n \<and> mday_of n \<le> 31"
proof -
  have "1 \<le> (n - DayFromYear (YearFromDay n))
        - month_start (DaysInYear (YearFromDay n) = 366) (month_of n) + 1
      \<and> (n - DayFromYear (YearFromDay n))
        - month_start (DaysInYear (YearFromDay n) = 366) (month_of n) + 1 \<le> 31"
    unfolding month_of_def using day_within_year [of n] by (intro date_in_month_range) simp_all
  then show ?thesis by (simp add: mday_of_def)
qed

lemma MakeDay_civil:
  "MakeDay (Fin (of_int (year_of n))) (Fin (of_int (month_of n))) (Fin (of_int (mday_of n)))
   = Fin (of_int n)"
proof -
  have m: "month_of n div 12 = 0" "month_of n mod 12 = month_of n"
    using month_of_range [of n] by simp_all
  show ?thesis
    by (simp add: m Let_def) (simp add: year_of_def mday_of_def)
qed

lemma window_time:
  assumes "in_window n"
  shows "TimeClip (Fin (of_int (msPerDay * n))) = TimeValue (msPerDay * n)"
proof -
  have "\<not> 8640000000000000 < \<bar>msPerDay * n\<bar>"
    using assms unfolding in_window_bounds msPerDay_def by arith
  then show ?thesis by (simp only: TimeClip_of_int if_False)
qed

lemma Date_UTC_civil:
  assumes "in_window n"
  shows "new_Date (Date_UTC (Fin (of_int (year_of n))) (Fin (of_int (month_of n)))
            (Fin (of_int (mday_of n)))) = TimeValue (msPerDay * n)"
proof -
  have y: "\<not> (0 \<le> year_of n \<and> year_of n \<le> 99)"
    using in_window_year [OF assms] by (simp add: year_of_def)
  have "js_mul (Fin (of_int n)) (Fin (of_int msPerDay)) = Fin (of_int (msPerDay * n))"
    by (simp add: mult.commute)
  then have "Date_UTC (Fin (of_int (year_of n))) (Fin (of_int (month_of n)))
            (Fin (of_int (mday_of n))) = getTime (TimeClip (Fin (of_int (msPerDay * n))))"
    using y unfolding Date_UTC_def Let_def by (simp only: jsnum.case trunc_of_int if_False MakeDay_civil)
  then show ?thesis
    by (simp only: window_time [OF assms] getTime.simps new_Date_def)
qed

lemma toDateOnlyUTC_Date:
  assumes "in_window (Day t)"
  shows "toDateOnlyUTC (JDate (TimeValue t)) = Inr (date_of_day (Day t))"
  using Date_UTC_civil [OF assms]
  by (simp add: toDateOnlyUTC_def civil_of_time date_of_day_def)

lemma ymd_date_of_day:
  assumes "in_window n"
  shows "ymd (date_of_day n) = Inr (ymd_text (year_of n) (month_of n + 1) (mday_of n))"
proof -
  have y: "0 \<le> year_of n \<and> year_of n \<le> 9999"
    using in_window_year [OF assms] by (simp add: year_of_def)
  obtain rest where "toISOString (TimeValue (msPerDay * n))
      = Inr (ymd_text (year_of n) (month_of n + 1) (mday_of n) @ rest)"
    using y by (simp add: civil_of_time iso_year_def ymd_text_def del: pad_digits.simps)
  moreover have "length (ymd_text (year_of n) (month_of n + 1) (mday_of n)) = 10"
    by (simp add: ymd_text_def del: pad_digits.simps)
  ultimately show ?thesis by (simp add: date_of_day_def)
qed

lemma toDateOnlyUTC_ymd_text:
  assumes "in_window n"
  shows "toDateOnlyUTC (JStr (ymd_text (year_of n) (month_of n + 1) (mday_of n)))
    = Inr (date_of_day n)"
proof -
  have y: "0 \<le> year_of n" "year_of n \<le> 9999"
    using in_window_year [OF assms] by (simp_all add: year_of_def)
  have m: "0 \<le> month_of n + 1" "month_of n + 1 \<le> 99"
    using month_of_range [of n] by simp_all
  have d: "0 \<le> mday_of n" "mday_of n \<le> 99"
    using mday_of_range [of n] by simp_all
  have ne: "ymd_text (year_of n) (month_of n + 1) (mday_of n) \<noteq> []"
    by (simp add: ymd_text_def)
  have s: "js_sub (Fin (of_int (month_of n) + 1)) (Fin 1) = Fin (of_int (month_of n))"
    by (simp add: js_sub_def)
  show ?thesis
    unfolding toDateOnlyUTC_string [OF ne] date_pieces_ymd_text [OF y m d]
    by (simp add: elem_num_def s Date_UTC_civil [OF assms] date_of_day_def)
qed

lemma clampDate_Date:
  assumes "in_window (Day t)"
  shows "clampDate (JDate (TimeValue t)) = Inr (date_of_day (Day t))"
  by (simp add: clampDate_def toDateOnlyUTC_Date [OF assms] ymd_date_of_day [OF assms]
      toDateOnlyUTC_ymd_text [OF assms])

lemma clampDate_date_of_day:
  assumes "in_window n"
  shows "clampDate (date_of_day n) = Inr (date_of_day n)"
  using clampDate_Date [of "msPerDay * n"] assms by (simp add: date_of_day_def)

section \<open>The calculations on day numbers\<close>

lemma ToNumber_date_of_day [simp]: "ToNumber (date_of_day n) = Fin (of_int (msPerDay * n))"
  by (simp add: date_of_day_def)

lemma date_of_day_compare [simp]:
  "val_lt (date_of_day a) (date_of_day b) = (a < b)"
  "val_le (date_of_day a) (date_of_day b) = (a \<le> b)"
  "val_gt (date_of_day a) (date_of_day b) = (b < a)"
  "val_ge (date_of_day a) (date_of_day b) = (b \<le> a)"
  by (auto simp: val_lt_def val_le_def val_gt_def val_ge_def js_le_def js_gt_def js_ge_def
      msPerDay_def)

lemma date_of_day_inject [simp]: "(date_of_day a = date_of_day b) = (a = b)"
  by (simp add: date_of_day_def msPerDay_def)

lemma daysBetween_days:
  assumes "in_window a" and "in_window b"
  shows "daysBetween (date_of_day a) (date_of_day b) = Inr (Fin (of_int (b - a)))"
proof -
  have "(real_of_int (msPerDay * b) - real_of_int (msPerDay * a)) / 86400000 = of_int (b - a)"
    by (simp add: msPerDay_def field_simps)
  then have "Math_floor (js_div (js_sub (Fin (of_int (msPerDay * b))) (Fin (of_int (msPerDay * a))))
      MS_PER_DAY) = Fin (of_int (b - a))"
    by (simp only: js_sub_def js_neg.simps js_add.simps MS_PER_DAY_def js_div.simps Math_floor.simps
        minus_real_def [symmetric] floor_of_int) simp
  then show ?thesis
    by (simp add: daysBetween_def clampDate_date_of_day assms)
qed

text \<open>
  Day 0 is Thursday, 1 January 1970: a day number is a weekday when its day of the week
  is neither Sunday (0) nor Saturday (6).
\<close>

definition weekday :: "int \<Rightarrow> bool" where
  "weekday n = ((n + 4) mod 7 \<noteq> 0 \<and> (n + 4) mod 7 \<noteq> 6)"

lemma getUTCDay_day: "date_getUTCDay (date_of_day n) = Inr (Fin (of_int ((n + 4) mod 7)))"
  by (simp add: date_of_day_def WeekDay_def)

lemma isWeekday_day:
  assumes "in_window n"
  shows "isWeekday (date_of_day n) = Inr (weekday n)"
  by (simp add: isWeekday_def clampDate_date_of_day [OF assms] getUTCDay_day weekday_def)

lemma addDays_days:
  "addDays (date_of_day n) (Fin (of_int k))
   = Inr (JDate (TimeClip (Fin (of_int (msPerDay * (n + k))))))"
proof -
  have "real_of_int (msPerDay * n) + real_of_int k * 86400000 = of_int (msPerDay * (n + k))"
    by (simp add: msPerDay_def algebra_simps)
  then have "js_add (getTime (TimeValue (msPerDay * n))) (js_mul (Fin (of_int k)) MS_PER_DAY)
      = Fin (of_int (msPerDay * (n + k)))"
    by (simp only: getTime.simps MS_PER_DAY_def js_mul.simps js_add.simps)
  then show ?thesis by (simp only: date_of_day_def addDays.simps new_Date_def)
qed

lemma near_window_time:
  assumes "- 683003 \<le> n" and "n \<le> 2932897"
  shows "TimeClip (Fin (of_int (msPerDay * n))) = TimeValue (msPerDay * n)"
proof -
  have "\<not> 8640000000000000 < \<bar>msPerDay * n\<bar>"
    using assms unfolding msPerDay_def by arith
  then show ?thesis by (simp only: TimeClip_of_int if_False)
qed

lemma addDays_days_near:
  assumes "- 683003 \<le> n + k" and "n + k \<le> 2932897"
  shows "addDays (date_of_day n) (Fin (of_int k)) = Inr (date_of_day (n + k))"
  by (simp only: addDays_days near_window_time [OF assms]) (simp only: date_of_day_def)

lemma addDays_one:
  assumes "- 683003 \<le> n + 1" and "n + 1 \<le> 2932897"
  shows "addDays (date_of_day n) (Fin 1) = Inr (date_of_day (n + 1))"
  using addDays_days_near [OF assms] by simp

text \<open>The number of weekdays among the day numbers \<open>a\<close>, ..., \<open>b\<close>.\<close>

definition weekdays_in :: "int \<Rightarrow> int \<Rightarrow> int" where
  "weekdays_in a b = int (length (filter weekday [a..b]))"

lemma weekdays_in_empty [simp]: "b < a \<Longrightarrow> weekdays_in a b = 0"
  by (simp add: weekdays_in_def)

lemma weekdays_in_rec:
  "a \<le> b \<Longrightarrow> weekdays_in a b = (if weekday a then 1 else 0) + weekdays_in (a + 1) b"
  by (simp add: weekdays_in_def upto_rec1 [of a b])

lemma weekdays_loop_days:
  assumes "- 683003 \<le> a" and "in_window b"
  shows "weekdays_loop (date_of_day a) (date_of_day b) (Fin r)
    = Inr (Fin (r + of_int (weekdays_in a b)))"
  using assms
proof (induction "nat (b + 1 - a)" arbitrary: a r)
  case 0
  then have "b < a" by simp
  then show ?case by (subst weekdays_loop.simps) simp
next
  case (Suc m)
  then have le: "a \<le> b" by linarith
  with Suc.prems have wa: "in_window a" by (simp add: in_window_bounds)
  have "- 683003 \<le> a + 1" "a + 1 \<le> 2932897"
    using Suc.prems le by (simp_all add: in_window_bounds)
  then have step: "addDays (date_of_day a) (Fin 1) = Inr (date_of_day (a + 1))"
    by (rule addDays_one)
  have m: "m = nat (b + 1 - (a + 1))" using Suc.hyps(2) by linarith
  have ih: "weekdays_loop (date_of_day (a + 1)) (date_of_day b) (Fin r')
      = Inr (Fin (r' + of_int (weekdays_in (a + 1) b)))" for r'
    using Suc.hyps(1) [OF m] Suc.prems le by simp
  show ?case
    by (subst weekdays_loop.simps)
      (simp add: le isWeekday_day [OF wa] step ih weekdays_in_rec [OF le])
qed

lemma weekdaysBetweenInclusive_days:
  assumes "clampDate x = Inr (date_of_day a)" and "clampDate y = Inr (date_of_day b)"
    and "in_window a" and "in_window b"
  shows "weekdaysBetweenInclusive x y = Inr (Fin (of_int (weekdays_in a b)))"
proof (cases "b < a")
  case True
  then show ?thesis by (simp add: weekdaysBetweenInclusive_def assms)
next
  case False
  have "weekdays_loop (date_of_day a) (date_of_day b) (Fin 0)
      = Inr (Fin (0 + of_int (weekdays_in a b)))"
    using assms by (intro weekdays_loop_days) (simp_all add: in_window_bounds)
  with False show ?thesis by (simp add: weekdaysBetweenInclusive_def assms)
qed

lemma countPaydays_days:
  assumes "clampDate x = Inr (date_of_day f)" and "clampDate y = Inr (date_of_day t)"
    and "in_window f" and "in_window t" and "p \<noteq> 0"
  shows "countPaydays x y (Fin p)
    = Inr (Fin (if t < f then 0 else of_int \<lfloor>of_int (t - f) / p\<rfloor> + 1))"
  using assms by (simp add: countPaydays_def daysBetween_days)

section \<open>Pay schedules on day numbers\<close>

text \<open>
  A value (a \<open>YYYY-MM-DD\<close> string or a \<open>Date\<close>) that \<open>toDateOnlyUTC\<close> reads as day number
  \<open>n\<close>, with a year from 100 to 9999.
\<close>

definition calendar_day :: "jsval \<Rightarrow> int \<Rightarrow> bool" where
  "calendar_day v n = (toDateOnlyUTC v = Inr (date_of_day n) \<and> in_window n)"

lemma calendar_day_Date: "in_window (Day t) \<Longrightarrow> calendar_day (JDate (TimeValue t)) (Day t)"
  by (simp add: calendar_day_def toDateOnlyUTC_Date)

lemma calendar_day_date_of_day: "in_window n \<Longrightarrow> calendar_day (date_of_day n) n"
  using calendar_day_Date [of "msPerDay * n"] by (simp add: date_of_day_def)

lemma clampDate_calendar_day:
  assumes "calendar_day v n"
  shows "clampDate v = Inr (date_of_day n)"
proof -
  from assms have t: "toDateOnlyUTC v = Inr (date_of_day n)" and w: "in_window n"
    by (simp_all add: calendar_day_def)
  show ?thesis
    by (simp add: clampDate_def t ymd_date_of_day [OF w] toDateOnlyUTC_ymd_text [OF w])
qed

lemma daysBetween_calendar:
  assumes "calendar_day x a" and "calendar_day y b"
  shows "daysBetween x y = Inr (Fin (of_int (b - a)))"
proof -
  have w: "in_window a" "in_window b" using assms by (simp_all add: calendar_day_def)
  have "daysBetween x y = daysBetween (date_of_day a) (date_of_day b)"
    by (simp add: daysBetween_def clampDate_calendar_day [OF assms(1)]
        clampDate_calendar_day [OF assms(2)] clampDate_date_of_day w)
  then show ?thesis by (simp add: daysBetween_days w)
qed

lemma countPaydays_calendar:
  assumes "calendar_day x f" and "calendar_day y t" and "p \<noteq> 0"
  shows "countPaydays x y (Fin p)
    = Inr (Fin (if t < f then 0 else of_int \<lfloor>of_int (t - f) / p\<rfloor> + 1))"
  using assms
  by (intro countPaydays_days) (simp_all add: clampDate_calendar_day calendar_day_def)

lemma weekdaysBetweenInclusive_calendar:
  assumes "calendar_day x a" and "calendar_day y b"
  shows "weekdaysBetweenInclusive x y = Inr (Fin (of_int (weekdays_in a b)))"
  using assms
  by (intro weekdaysBetweenInclusive_days) (simp_all add: clampDate_calendar_day calendar_day_def)

text \<open>
  A payday is a day \<open>f + k * p\<close> with \<open>k \<ge> 0\<close>. The \<open>Date\<close> that \<open>new Date\<close> makes of a day
  number, which is an Invalid Date beyond the range of time values.
\<close>

definition payday :: "int \<Rightarrow> int \<Rightarrow> int \<Rightarrow> bool" where
  "payday f p d = (f \<le> d \<and> (d - f) mod p = 0)"

definition clipped_day :: "int \<Rightarrow> jsval" where
  "clipped_day x = JDate (TimeClip (Fin (of_int (msPerDay * x))))"

lemma clipped_day_window:
  assumes "- 683003 \<le> x" and "x \<le> 2932897"
  shows "clipped_day x = date_of_day x"
  by (simp only: clipped_day_def near_window_time [OF assms] date_of_day_def)

lemma clipped_day_after:
  assumes "e < x"
  shows "\<not> val_le (clipped_day x) (date_of_day e)"
proof (cases "8640000000000000 < \<bar>msPerDay * x\<bar>")
  case True
  then have "clipped_day x = JDate InvalidDate"
    by (simp only: clipped_day_def TimeClip_of_int if_True)
  then show ?thesis by (simp add: val_le_def js_le_def)
next
  case False
  then have "clipped_day x = date_of_day x"
    by (simp only: clipped_day_def TimeClip_of_int if_False date_of_day_def)
  with assms show ?thesis by simp
qed

lemma addDays_clipped:
  "addDays (date_of_day n) (Fin (of_int k)) = Inr (clipped_day (n + k))"
  by (simp only: addDays_days clipped_day_def)

lemma no_payday_between:
  assumes "0 < p" and "(x - f) mod p = 0" and "x - p < d" and "d < x"
  shows "\<not> payday f p d"
proof
  assume "payday f p d"
  then have "p dvd d - f" by (simp add: payday_def dvd_eq_mod_eq_0)
  moreover have "p dvd x - f" using assms(2) by (simp add: dvd_eq_mod_eq_0)
  ultimately have "p dvd (x - f) - (d - f)" by (rule dvd_diff [rotated])
  then have "p dvd x - d" by simp
  moreover have "0 < x - d" "x - d < p" using assms by simp_all
  ultimately show False using zdvd_not_zless by blast
qed

lemma payday_step:
  assumes "0 < p" and "payday f p x"
  shows "payday f p (x + p)"
proof -
  have "x + p - f = (x - f) + p" by simp
  then have "(x + p - f) mod p = (x - f) mod p" by (simp only: mod_add_self2)
  with assms show ?thesis by (simp add: payday_def)
qed

lemma filter_payday_skip:
  assumes "0 < p" and "payday f p x"
  shows "filter (payday f p) [x + 1..e] = filter (payday f p) [x + p..e]"
proof (cases "x + p \<le> e")
  case True
  have "[x + 1..e] = [x + 1..x + p - 1] @ [x + p..e]"
    using assms(1) True upto_split1 [of "x + 1" "x + p" e] by simp
  moreover have "filter (payday f p) [x + 1..x + p - 1] = []"
  proof -
    have "\<not> payday f p d" if "d \<in> set [x + 1..x + p - 1]" for d
    proof -
      have "(x + p - f) mod p = 0" using assms(2) payday_step [OF assms] by (simp add: payday_def)
      moreover have "x + p - p < d" "d < x + p" using that by simp_all
      ultimately show ?thesis by (rule no_payday_between [OF assms(1)])
    qed
    then show ?thesis by (simp add: filter_empty_conv)
  qed
  ultimately show ?thesis by simp
next
  case False
  have "\<not> payday f p d" if "d \<in> set [x + 1..e]" for d
  proof -
    have "(x + p - f) mod p = 0" using payday_step [OF assms] by (simp add: payday_def)
    moreover have "x + p - p < d" "d < x + p" using that False by simp_all
    ultimately show ?thesis by (rule no_payday_between [OF assms(1)])
  qed
  then have "filter (payday f p) [x + 1..e] = []" by (simp add: filter_empty_conv)
  moreover have "[x + p..e] = []" using False by simp
  ultimately show ?thesis by simp
qed

lemma paydays_loop_days:
  assumes "0 < p" and "payday f p x" and "- 683003 \<le> x" and "in_window e"
  shows "paydays_loop (clipped_day x) (date_of_day e) (Fin (of_int p)) out
    = Some (Inr (out @ map date_of_day (filter (payday f p) [x..e])))"
  using assms(2,3)
proof (induction "nat (e + 1 - x)" arbitrary: x out rule: less_induct)
  case less
  show ?case
  proof (cases "x \<le> e")
    case False
    then have "\<not> val_le (clipped_day x) (date_of_day e)" by (intro clipped_day_after) simp
    then show ?thesis using False by (subst paydays_loop.simps) simp
  next
    case True
    have cx: "clipped_day x = date_of_day x"
      using less.prems True assms(4) by (intro clipped_day_window) (simp_all add: in_window_bounds)
    have m: "nat (e + 1 - (x + p)) < nat (e + 1 - x)" using True assms(1) by linarith
    have ih: "paydays_loop (clipped_day (x + p)) (date_of_day e) (Fin (of_int p)) out'
        = Some (Inr (out' @ map date_of_day (filter (payday f p) [x + p..e])))" for out'
      using less.hyps [OF m payday_step [OF assms(1) less.prems(1)]] less.prems(2) assms(1)
      by simp
    have "filter (payday f p) [x..e] = x # filter (payday f p) [x + 1..e]"
      using True less.prems(1) by (simp add: upto_rec1 [of x e])
    then have f: "filter (payday f p) [x..e] = x # filter (payday f p) [x + p..e]"
      by (simp only: filter_payday_skip [OF assms(1) less.prems(1)])
    show ?thesis
      by (subst paydays_loop.simps) (simp add: cx True addDays_clipped ih f)
  qed
qed

text \<open>The day of the next payday on or after day \<open>s\<close>.\<close>

definition next_payday :: "int \<Rightarrow> int \<Rightarrow> int \<Rightarrow> int" where
  "next_payday f p s = (if s \<le> f then f else f + (- ((f - s) div p)) * p)"

lemma next_payday_late:
  assumes "0 < p" and "f < s"
  shows "s \<le> next_payday f p s \<and> next_payday f p s - p < s
    \<and> (next_payday f p s - f) mod p = 0"
proof -
  have e: "p * ((f - s) div p) + (f - s) mod p = f - s" by (rule mult_div_mod_eq)
  have r: "0 \<le> (f - s) mod p" "(f - s) mod p < p" using assms(1) by simp_all
  have n: "next_payday f p s = f - p * ((f - s) div p)"
    using assms(2) by (simp add: next_payday_def)
  have "s \<le> f - p * ((f - s) div p)" using e r by linarith
  moreover have "f - p * ((f - s) div p) - p < s" using e r by linarith
  moreover have "(f - p * ((f - s) div p) - f) mod p = 0" by simp
  ultimately show ?thesis by (simp only: n) 
qed

lemma next_payday_spec:
  assumes "0 < p"
  shows "payday f p (next_payday f p s) \<and> s \<le> next_payday f p s
    \<and> filter (payday f p) [s..next_payday f p s - 1] = []"
proof (cases "s \<le> f")
  case True
  then have n: "next_payday f p s = f" by (simp add: next_payday_def)
  have "\<not> payday f p d" if "d \<in> set [s..f - 1]" for d
    using that by (simp add: payday_def)
  then have "filter (payday f p) [s..f - 1] = []" by (simp add: filter_empty_conv)
  with True show ?thesis by (simp add: n payday_def)
next
  case False
  then have fs: "f < s" by simp
  note l = next_payday_late [OF assms fs]
  have "\<not> payday f p d" if "d \<in> set [s..next_payday f p s - 1]" for d
  proof -
    have "next_payday f p s - p < d" "d < next_payday f p s" using that l by simp_all
    with l show ?thesis by (intro no_payday_between [OF assms]) simp_all
  qed
  then have "filter (payday f p) [s..next_payday f p s - 1] = []"
    by (simp add: filter_empty_conv)
  moreover have "f \<le> next_payday f p s" using l fs by linarith
  ultimately show ?thesis using l by (simp add: payday_def)
qed

lemma filter_from_next_payday:
  assumes "0 < p"
  shows "filter (payday f p) [s..e] = filter (payday f p) [next_payday f p s..e]"
proof (cases "next_payday f p s \<le> e")
  case True
  have "[s..e] = [s..next_payday f p s - 1] @ [next_payday f p s..e]"
    using next_payday_spec [OF assms, of f s] True by (intro upto_split1) simp_all
  then show ?thesis using next_payday_spec [OF assms, of f s] by simp
next
  case False
  have "set [s..e] \<subseteq> set [s..next_payday f p s - 1]" using False by auto
  moreover have "\<forall>d \<in> set [s..next_payday f p s - 1]. \<not> payday f p d"
    using next_payday_spec [OF assms, of f s] by (simp add: filter_empty_conv)
  ultimately have "\<forall>d \<in> set [s..e]. \<not> payday f p d" by blast
  then have "filter (payday f p) [s..e] = []" by (simp only: filter_empty_conv)
  moreover have "[next_payday f p s..e] = []" using False by simp
  ultimately show ?thesis by simp
qed

lemma nextPaydayOnOrAfter_calendar:
  assumes "calendar_day x s" and "calendar_day z f" and "0 < p"
  shows "nextPaydayOnOrAfter x z (Fin (of_int p)) = Inr (clipped_day (next_payday f p s))"
proof (cases "s \<le> f")
  case True
  have "in_window f" using assms(2) by (simp add: calendar_day_def)
  then have "clipped_day f = date_of_day f"
    by (intro clipped_day_window) (simp_all add: in_window_bounds)
  with True show ?thesis
    by (simp add: nextPaydayOnOrAfter_def clampDate_calendar_day [OF assms(1)]
        clampDate_calendar_day [OF assms(2)] next_payday_def)
next
  case False
  have w: "in_window f" "in_window s" using assms by (simp_all add: calendar_day_def)
  have d: "daysBetween (date_of_day f) (date_of_day s) = Inr (Fin (of_int (s - f)))"
    by (rule daysBetween_days [OF w])
  have p0: "real_of_int p \<noteq> 0" using assms(3) by simp
  have c: "\<lceil>real_of_int (s - f) / real_of_int p\<rceil> = - ((f - s) div p)"
    using ceiling_divide_eq_div [of "s - f" p] by simp
  have "js_mul (Math_ceil (js_div (Fin (of_int (s - f))) (Fin (of_int p)))) (Fin (of_int p))
      = Fin (of_int ((- ((f - s) div p)) * p))"
    using p0
    by (simp only: js_div.simps not_False_eq_True if_True Math_ceil.simps c js_mul.simps
        of_int_mult)
  then have "addDays (date_of_day f)
      (js_mul (Math_ceil (js_div (Fin (of_int (s - f))) (Fin (of_int p)))) (Fin (of_int p)))
      = Inr (clipped_day (f + (- ((f - s) div p)) * p))"
    by (simp only: addDays_clipped)
  with False show ?thesis
    by (simp add: nextPaydayOnOrAfter_def clampDate_calendar_day [OF assms(1)]
        clampDate_calendar_day [OF assms(2)] d next_payday_def del: js_div.simps js_mul.simps)
qed

lemma getPaydaysBetween_calendar:
  assumes "calendar_day x s" and "calendar_day y e" and "calendar_day z f" and "0 < p"
  shows "getPaydaysBetween x y z (Fin (of_int p))
    = Some (Inr (map date_of_day (filter (payday f p) [s..e])))"
proof -
  have w: "in_window s" "in_window e" using assms by (simp_all add: calendar_day_def)
  have n: "nextPaydayOnOrAfter (date_of_day s) z (Fin (of_int p))
      = Inr (clipped_day (next_payday f p s))"
    by (rule nextPaydayOnOrAfter_calendar [OF calendar_day_date_of_day [OF w(1)] assms(3,4)])
  note sp = next_payday_spec [OF assms(4), of f s]
  have "- 683003 \<le> next_payday f p s" using sp w(1) by (simp add: in_window_bounds)
  with sp have "paydays_loop (clipped_day (next_payday f p s)) (date_of_day e) (Fin (of_int p)) []
      = Some (Inr ([] @ map date_of_day (filter (payday f p) [next_payday f p s..e])))"
    by (intro paydays_loop_days [OF assms(4)]) (simp_all add: w)
  then show ?thesis
    by (simp add: getPaydaysBetween_def clampDate_calendar_day [OF assms(1)]
        clampDate_calendar_day [OF assms(2)] n filter_from_next_payday [OF assms(4), of f s e])
qed

section \<open>The balance on day numbers\<close>

text \<open>
  A leave range whose ends are read as the days \<open>a\<close> and \<open>b\<close> (in either order), and
  the hours the ranges of a ledger take off a balance at day \<open>t\<close>: eight for every
  weekday from \<open>a\<close> to the earlier of \<open>b\<close> and \<open>t\<close>, for the ranges that begin by \<open>t\<close>.
\<close>

definition range_days :: "ptoRange \<Rightarrow> int \<times> int \<Rightarrow> bool" where
  "range_days r ab = (calendar_day (range_from r) (fst ab) \<and> calendar_day (range_to r) (snd ab))"

definition leave_hours :: "(int \<times> int) list \<Rightarrow> int \<Rightarrow> int" where
  "leave_hours ds t =
     sum_list (map (\<lambda>(a, b). 8 * weekdays_in a (min b t)) (filter (\<lambda>(a, b). a \<le> t) ds))"

lemma weekdays_in_nonneg: "0 \<le> weekdays_in a b"
  by (simp add: weekdays_in_def)

lemma ptoRange_hours_days:
  assumes "in_window t" and "range_days r (a, b)"
  shows "ptoRange_hours (date_of_day t) r
    = Inr (if t < a then None else Some (Fin (of_int (8 * weekdays_in a (min b t)))))"
proof -
  have f: "toDateOnlyUTC (range_from r) = Inr (date_of_day a)"
    and g: "toDateOnlyUTC (range_to r) = Inr (date_of_day b)"
    and w: "in_window a" "in_window b"
    using assms(2) by (simp_all add: range_days_def calendar_day_def)
  have ca: "calendar_day (date_of_day a) a" by (rule calendar_day_date_of_day [OF w(1)])
  have cm: "calendar_day (if b \<le> t then date_of_day b else date_of_day t) (min b t)"
    using w assms(1) by (simp add: calendar_day_date_of_day min_def)
  have "weekdaysBetweenInclusive (date_of_day a) (if b \<le> t then date_of_day b else date_of_day t)
      = Inr (Fin (of_int (weekdays_in a (min b t))))"
    by (rule weekdaysBetweenInclusive_calendar [OF ca cm])
  then show ?thesis
    by (simp add: ptoRange_hours_def f g mult.commute)
qed

lemma ptoHours_loop_days:
  assumes "in_window t" and "list_all2 range_days rs ds"
  shows "ptoHours_loop (date_of_day t) rs (Fin h) = Inr (Fin (h + of_int (leave_hours ds t)))"
  using assms(2)
proof (induction rs ds arbitrary: h rule: list_all2_induct)
  case Nil
  show ?case by (simp add: leave_hours_def)
next
  case (Cons r rs ab ds)
  obtain a b where ab: "ab = (a, b)" by (cases ab)
  have l: "leave_hours ((a, b) # ds) t
      = (if a \<le> t then 8 * weekdays_in a (min b t) else 0) + leave_hours ds t"
    by (simp add: leave_hours_def)
  show ?case
    using Cons.hyps(1) Cons.IH
    by (simp add: ab ptoRange_hours_days [OF assms(1)] l algebra_simps)
qed

lemma ptoHoursUpTo_days:
  assumes "calendar_day target t" and "list_all2 range_days (ptoRanges st) ds"
  shows "ptoHoursUpTo st target = Inr (Fin (of_int (leave_hours ds t)))"
proof -
  have t: "toDateOnlyUTC target = Inr (date_of_day t)" and w: "in_window t"
    using assms(1) by (simp_all add: calendar_day_def)
  show ?thesis
    using ptoHours_loop_days [OF w assms(2), of 0] by (simp add: ptoHoursUpTo_def t)
qed

lemma leave_hours_multiple: "\<exists>k::nat. leave_hours ds t = 8 * int k"
proof (induction ds)
  case Nil
  show ?case by (simp add: leave_hours_def)
next
  case (Cons ab ds)
  then obtain k :: nat where k: "leave_hours ds t = 8 * int k" by blast
  obtain a b where ab: "ab = (a, b)" by (cases ab)
  obtain j :: nat where j: "weekdays_in a (min b t) = int j"
    by (auto simp: weekdays_in_def)
  have "leave_hours (ab # ds) t = (if a \<le> t then 8 * int j else 0) + 8 * int k"
    by (simp add: leave_hours_def ab j k [unfolded leave_hours_def])
  then have "leave_hours (ab # ds) t = 8 * int (if a \<le> t then j + k else k)"
    by simp
  then show ?case by blast
qed

text \<open>
  A credit that is read as day \<open>d\<close>, and the hours the credits of a ledger add to a
  balance at day \<open>t\<close>: the clamped hours of the credits dated by \<open>t\<close>, summed as the
  code sums them.
\<close>

definition credit_day :: "credit \<Rightarrow> int \<Rightarrow> bool" where
  "credit_day c d = calendar_day (credit_date c) d"

definition credit_sum :: "(credit \<times> int) list \<Rightarrow> int \<Rightarrow> jsnum" where
  "credit_sum cds t =
     foldl js_add (Fin 0) (map (\<lambda>(c, d). clamp_hours (credit_hours c)) (filter (\<lambda>(c, d). d \<le> t) cds))"

lemma creditHours_loop_days:
  assumes "in_window t" and "list_all2 credit_day cs ds"
  shows "creditHours_loop (date_of_day t) cs h
    = Inr (foldl js_add h (map (\<lambda>(c, d). clamp_hours (credit_hours c))
        (filter (\<lambda>(c, d). d \<le> t) (zip cs ds))))"
  using assms(2)
proof (induction cs ds arbitrary: h rule: list_all2_induct)
  case Nil
  show ?case by simp
next
  case (Cons c cs d ds)
  have "toDateOnlyUTC (credit_date c) = Inr (date_of_day d)"
    using Cons.hyps(1) by (simp add: credit_day_def calendar_day_def)
  then show ?case using Cons.IH by simp
qed

lemma creditHoursUpTo_days:
  assumes "calendar_day target t" and "list_all2 credit_day (credits st) ds"
  shows "creditHoursUpTo st target = Inr (credit_sum (zip (credits st) ds) t)"
proof -
  have t: "toDateOnlyUTC target = Inr (date_of_day t)" and w: "in_window t"
    using assms(1) by (simp_all add: calendar_day_def)
  show ?thesis
    by (simp add: creditHoursUpTo_def t creditHours_loop_days [OF w assms(2)] credit_sum_def)
qed

lemma clamp_hours_cases:
  "clamp_hours h = (if js_lt (Fin 0) (ToNumber h) then ToNumber h else Fin 0)"
  by (cases "ToNumber h") (auto simp: clamp_hours_def Math_max_def js_or_def num_truthy_def)

text \<open>
  The hours of a credit as the code clamps them, when they are finite, and the credits
  of a ledger dated by \<open>t\<close>, summed.
\<close>

definition credit_worth :: "jsval \<Rightarrow> real" where
  "credit_worth h = (case ToNumber h of Fin x \<Rightarrow> if 0 < x then x else 0 | _ \<Rightarrow> 0)"

definition credit_total :: "(credit \<times> int) list \<Rightarrow> int \<Rightarrow> real" where
  "credit_total cds t =
     sum_list (map (\<lambda>(c, d). credit_worth (credit_hours c)) (filter (\<lambda>(c, d). d \<le> t) cds))"

definition finite_hours :: "credit \<Rightarrow> bool" where
  "finite_hours c = (ToNumber (credit_hours c) \<noteq> PosInf)"

lemma clamp_hours_worth:
  assumes "ToNumber h \<noteq> PosInf"
  shows "clamp_hours h = Fin (credit_worth h)"
  using assms
  by (cases "ToNumber h")
    (auto simp: clamp_hours_def Math_max_def js_or_def num_truthy_def credit_worth_def)

lemma foldl_js_add_Fin:
  "foldl js_add (Fin h) (map Fin xs) = Fin (h + sum_list xs)"
  by (induction xs arbitrary: h) (simp_all add: algebra_simps)

lemma credit_sum_total:
  assumes "list_all finite_hours (map fst cds)"
  shows "credit_sum cds t = Fin (credit_total cds t)"
proof -
  have eq: "map (\<lambda>(c, d). clamp_hours (credit_hours c)) (filter (\<lambda>(c, d). d \<le> t) cds)
      = map Fin (map (\<lambda>(c, d). credit_worth (credit_hours c)) (filter (\<lambda>(c, d). d \<le> t) cds))"
    using assms
    by (induction cds) (auto simp: finite_hours_def clamp_hours_worth)
  show ?thesis
    unfolding credit_sum_def credit_total_def eq foldl_js_add_Fin by simp
qed

text \<open>
  The settings as numbers: what the code makes of the start balance, the accrual and
  the pay period (with their fallbacks 0, 0 and 14), when these are finite.
\<close>

definition config_numbers :: "state \<Rightarrow> real \<Rightarrow> real \<Rightarrow> real \<Rightarrow> bool" where
  "config_numbers st sb a p =
     (js_or (ToNumber (startBalance st)) (Fin 0) = Fin sb
      \<and> js_or (ToNumber (accrualPerPeriod st)) (Fin 0) = Fin a
      \<and> js_or (ToNumber (payFrequencyDays st)) (Fin 14) = Fin p)"

text \<open>
  A state whose first payday, leave ranges and credits carry dates of the years 100 to
  9999 (\<open>f\<close>, \<open>rds\<close> and \<open>cds\<close> are their day numbers) and whose credit hours are not
  infinite.
\<close>

definition well_formed :: "state \<Rightarrow> int \<Rightarrow> (int \<times> int) list \<Rightarrow> int list \<Rightarrow> bool" where
  "well_formed st f rds cds =
     (calendar_day (firstPayday st) f
      \<and> list_all2 range_days (ptoRanges st) rds
      \<and> list_all2 credit_day (credits st) cds
      \<and> list_all finite_hours (credits st))"

text \<open>The balance formula of the specification, on day numbers.\<close>

definition accrued :: "int \<Rightarrow> real \<Rightarrow> real \<Rightarrow> int \<Rightarrow> real" where
  "accrued f p a t = (if f \<le> t then (of_int \<lfloor>of_int (t - f) / p\<rfloor> + 1) * a else 0)"

definition balance_formula ::
  "state \<Rightarrow> real \<Rightarrow> real \<Rightarrow> real \<Rightarrow> int \<Rightarrow> (int \<times> int) list \<Rightarrow> int list \<Rightarrow> int \<Rightarrow> real" where
  "balance_formula st sb a p f rds cds t =
     sb + accrued f p a t - of_int (leave_hours rds t) + credit_total (zip (credits st) cds) t"

lemma js_or_14_nonzero: "js_or x (Fin 14) = Fin p \<Longrightarrow> p \<noteq> 0"
  by (auto simp: js_or_def num_truthy_def split: if_splits)

lemma creditHoursUpTo_total:
  assumes "calendar_day target t" and "well_formed st f rds cds"
  shows "creditHoursUpTo st target = Inr (Fin (credit_total (zip (credits st) cds) t))"
proof -
  have c: "list_all2 credit_day (credits st) cds" and h: "list_all finite_hours (credits st)"
    using assms(2) by (simp_all add: well_formed_def)
  have "length (credits st) = length cds" using c by (rule list_all2_lengthD)
  then have "map fst (zip (credits st) cds) = credits st" by simp
  with h have "list_all finite_hours (map fst (zip (credits st) cds))" by simp
  then show ?thesis
    by (simp only: creditHoursUpTo_days [OF assms(1) c] credit_sum_total)
qed

lemma getBalanceOn_formula:
  assumes "calendar_day target t" and "well_formed st f rds cds" and "config_numbers st sb a p"
  shows "getBalanceOn st target = Inr (Fin (balance_formula st sb a p f rds cds t))"
proof -
  have t: "toDateOnlyUTC target = Inr (date_of_day t)" and w: "in_window t"
    using assms(1) by (simp_all add: calendar_day_def)
  have f: "toDateOnlyUTC (firstPayday st) = Inr (date_of_day f)" and wf: "in_window f"
    and r: "list_all2 range_days (ptoRanges st) rds"
    using assms(2) by (simp_all add: well_formed_def calendar_day_def)
  have n: "js_or (ToNumber (startBalance st)) (Fin 0) = Fin sb"
    "js_or (ToNumber (accrualPerPeriod st)) (Fin 0) = Fin a"
    "js_or (ToNumber (payFrequencyDays st)) (Fin 14) = Fin p"
    using assms(3) by (simp_all add: config_numbers_def)
  have p: "p \<noteq> 0" using n(3) by (rule js_or_14_nonzero)
  have c: "countPaydays (date_of_day f) (date_of_day t) (Fin p)
      = Inr (Fin (if t < f then 0 else of_int \<lfloor>of_int (t - f) / p\<rfloor> + 1))"
    by (rule countPaydays_calendar [OF calendar_day_date_of_day [OF wf]
          calendar_day_date_of_day [OF w] p])
  show ?thesis
    by (simp add: getBalanceOn_def t f n c ptoHoursUpTo_days [OF assms(1) r]
        creditHoursUpTo_total [OF assms(1,2)] balance_formula_def accrued_def js_sub_def
        algebra_simps)
qed

text \<open>The text \<open>YYYY-MM-DD\<close> of a day number.\<close>

definition day_text :: "int \<Rightarrow> string" where
  "day_text n = ymd_text (year_of n) (month_of n + 1) (mday_of n)"

lemma ymd_Date:
  assumes "in_window (Day t)"
  shows "ymd (JDate (TimeValue t)) = Inr (day_text (Day t))"
proof -
  have y: "0 \<le> year_of (Day t) \<and> year_of (Day t) \<le> 9999"
    using in_window_year [OF assms] by (simp add: year_of_def)
  obtain rest where "toISOString (TimeValue t) = Inr (day_text (Day t) @ rest)"
    using y by (simp add: civil_of_time iso_year_def ymd_text_def day_text_def del: pad_digits.simps)
  moreover have "length (day_text (Day t)) = 10"
    by (simp add: ymd_text_def day_text_def del: pad_digits.simps)
  ultimately show ?thesis by simp
qed

lemma calendar_day_text: "in_window n \<Longrightarrow> calendar_day (JStr (day_text n)) n"
  by (simp add: calendar_day_def day_text_def toDateOnlyUTC_ymd_text)

lemma window_time_bound:
  assumes "in_window (Day t)"
  shows "\<not> 8640000000000000 < \<bar>t\<bar>"
proof -
  have e: "msPerDay * (t div msPerDay) + t mod msPerDay = t" by (rule mult_div_mod_eq)
  have r: "0 \<le> t mod msPerDay" "t mod msPerDay < msPerDay" by (simp_all add: msPerDay_def)
  have "- 683003 \<le> t div msPerDay" "t div msPerDay < 2932897"
    using assms by (simp_all add: in_window_bounds Day_def)
  then have "msPerDay * (- 683003) \<le> msPerDay * (t div msPerDay)"
    "msPerDay * (t div msPerDay) \<le> msPerDay * 2932896"
    by (simp_all add: msPerDay_def)
  with e r show ?thesis by (simp add: msPerDay_def)
qed

lemma Day_add_days: "Day (t + i * msPerDay) = Day t + i"
  by (simp add: Day_def msPerDay_def)

lemma addDays_Date:
  assumes "in_window (Day t + i)"
  shows "addDays (JDate (TimeValue t)) (Fin (of_int i)) = Inr (JDate (TimeValue (t + i * msPerDay)))"
proof -
  have "real_of_int t + real_of_int i * 86400000 = of_int (t + i * msPerDay)"
    by (simp add: msPerDay_def)
  then have "js_add (getTime (TimeValue t)) (js_mul (Fin (of_int i)) MS_PER_DAY)
      = Fin (of_int (t + i * msPerDay))"
    by (simp only: getTime.simps MS_PER_DAY_def js_mul.simps js_add.simps)
  moreover have "\<not> 8640000000000000 < \<bar>t + i * msPerDay\<bar>"
    using assms by (intro window_time_bound) (simp add: Day_add_days)
  ultimately show ?thesis
    by (simp only: addDays.simps new_Date_def TimeClip_of_int if_False)
qed

section \<open>The revision with holiday logic on day numbers\<close>

lemma clampToDateOnly_clampDate: "clampToDateOnly d = clampDate d"
  by (simp add: clampToDateOnly_def clampDate_def)

text \<open>
  A business day under a set of holiday texts: a weekday whose text \<open>YYYY-MM-DD\<close> is not
  in the set; and the number of business days among the days \<open>a\<close>, ..., \<open>b\<close>.
\<close>

definition business_day :: "string set \<Rightarrow> int \<Rightarrow> bool" where
  "business_day H n = (weekday n \<and> day_text n \<notin> H)"

definition business_days_in :: "string set \<Rightarrow> int \<Rightarrow> int \<Rightarrow> int" where
  "business_days_in H a b = int (length (filter (business_day H) [a..b]))"

lemma business_days_in_empty [simp]: "b < a \<Longrightarrow> business_days_in H a b = 0"
  by (simp add: business_days_in_def)

lemma business_days_in_rec:
  "a \<le> b \<Longrightarrow> business_days_in H a b
     = (if business_day H a then 1 else 0) + business_days_in H (a + 1) b"
  by (simp add: business_days_in_def upto_rec1 [of a b])

lemma business_days_in_no_holidays: "business_days_in {} a b = weekdays_in a b"
proof -
  have "business_day {} = weekday" by (rule ext) (simp add: business_day_def)
  then show ?thesis by (simp add: business_days_in_def weekdays_in_def)
qed

lemma ymd_day_text:
  assumes "in_window n"
  shows "ymd (date_of_day n) = Inr (day_text n)"
  by (simp only: ymd_date_of_day [OF assms] day_text_def)

lemma isBusinessDay_day:
  assumes "in_window n"
  shows "isBusinessDay (date_of_day n) H = Inr (business_day H n)"
proof -
  have "(Fin (real_of_int ((n + 4) mod 7)) = Fin 0 \<or> Fin (real_of_int ((n + 4) mod 7)) = Fin 6)
      = (\<not> weekday n)"
    by (auto simp: weekday_def)
  then show ?thesis
    by (simp add: isBusinessDay_def clampToDateOnly_clampDate clampDate_date_of_day [OF assms]
        getUTCDay_day ymd_day_text [OF assms] business_day_def del: of_int_eq_iff)
qed

lemma business_loop_days:
  assumes "- 683003 \<le> a" and "in_window b"
  shows "business_loop (date_of_day a) (date_of_day b) H (Fin r)
    = Inr (Fin (r + of_int (business_days_in H a b)))"
  using assms
proof (induction "nat (b + 1 - a)" arbitrary: a r)
  case 0
  then have "b < a" by simp
  then show ?case by (subst business_loop.simps) simp
next
  case (Suc m)
  then have le: "a \<le> b" by linarith
  with Suc.prems have wa: "in_window a" by (simp add: in_window_bounds)
  have "- 683003 \<le> a + 1" "a + 1 \<le> 2932897"
    using Suc.prems le by (simp_all add: in_window_bounds)
  then have step: "addDays (date_of_day a) (Fin 1) = Inr (date_of_day (a + 1))"
    by (rule addDays_one)
  have m: "m = nat (b + 1 - (a + 1))" using Suc.hyps(2) by linarith
  have ih: "business_loop (date_of_day (a + 1)) (date_of_day b) H (Fin r')
      = Inr (Fin (r' + of_int (business_days_in H (a + 1) b)))" for r'
    using Suc.hyps(1) [OF m] Suc.prems le by simp
  show ?case
    by (subst business_loop.simps)
      (simp add: le isBusinessDay_day [OF wa] step ih business_days_in_rec [OF le])
qed

lemma businessDaysBetweenInclusive_calendar:
  assumes "calendar_day x a" and "calendar_day y b"
  shows "businessDaysBetweenInclusive x y H = Inr (Fin (of_int (business_days_in H a b)))"
proof -
  have w: "in_window a" "in_window b" using assms by (simp_all add: calendar_day_def)
  have c: "clampToDateOnly x = Inr (date_of_day a)" "clampToDateOnly y = Inr (date_of_day b)"
    using assms by (simp_all add: clampToDateOnly_clampDate clampDate_calendar_day)
  show ?thesis
  proof (cases "b < a")
    case True
    then show ?thesis by (simp add: businessDaysBetweenInclusive_def c)
  next
    case False
    have "business_loop (date_of_day a) (date_of_day b) H (Fin 0)
        = Inr (Fin (0 + of_int (business_days_in H a b)))"
      using w by (intro business_loop_days) (simp_all add: in_window_bounds)
    with False show ?thesis by (simp add: businessDaysBetweenInclusive_def c)
  qed
qed

lemma ptoRange_business_hours_days:
  assumes "in_window t" and "range_days r (a, b)"
  shows "ptoRange_business_hours (date_of_day t) H r
    = Inr (if t < a then None else Some (Fin (of_int (8 * business_days_in H a (min b t)))))"
proof -
  have f: "toDateOnlyUTC (range_from r) = Inr (date_of_day a)"
    and g: "toDateOnlyUTC (range_to r) = Inr (date_of_day b)"
    and w: "in_window a" "in_window b"
    using assms(2) by (simp_all add: range_days_def calendar_day_def)
  have ca: "calendar_day (date_of_day a) a" by (rule calendar_day_date_of_day [OF w(1)])
  have cm: "calendar_day (if b \<le> t then date_of_day b else date_of_day t) (min b t)"
    using w assms(1) by (simp add: calendar_day_date_of_day min_def)
  have "businessDaysBetweenInclusive (date_of_day a)
        (if b \<le> t then date_of_day b else date_of_day t) H
      = Inr (Fin (of_int (business_days_in H a (min b t))))"
    by (rule businessDaysBetweenInclusive_calendar [OF ca cm])
  then show ?thesis
    by (simp add: ptoRange_business_hours_def f g mult.commute)
qed

lemma big_window_time:
  assumes "\<bar>n\<bar> \<le> 100000000"
  shows "TimeClip (Fin (of_int (msPerDay * n))) = TimeValue (msPerDay * n)"
proof -
  have "\<not> 8640000000000000 < \<bar>msPerDay * n\<bar>"
    using assms unfolding msPerDay_def by arith
  then show ?thesis by (simp only: TimeClip_of_int if_False)
qed

lemma month_start_bounds: "0 \<le> month_start leap m \<and> month_start leap m \<le> 335"
  by (simp add: month_start_def Let_def)

lemma DayFromYear_bounds:
  assumes "- 100001 \<le> y" and "y \<le> 100002"
  shows "- 40000000 \<le> DayFromYear y \<and> DayFromYear y \<le> 40000000"
proof -
  have "DayFromYear (- 100001) \<le> DayFromYear y" using assms(1) by (rule DayFromYear_mono)
  moreover have "DayFromYear y \<le> DayFromYear 100002" using assms(2) by (rule DayFromYear_mono)
  moreover have "- 40000000 \<le> DayFromYear (- 100001)" "DayFromYear 100002 \<le> 40000000"
    by (simp_all add: DayFromYear_def)
  ultimately show ?thesis by linarith
qed

lemma Date_UTC_whole:
  assumes "\<bar>k\<bar> \<le> 100000" and "0 \<le> j" and "j \<le> 12" and "\<bar>d\<bar> \<le> 1000"
  shows "\<exists>D. \<bar>D\<bar> \<le> 50000000
    \<and> new_Date (Date_UTC (Fin (of_int k)) (Fin (of_int j)) (Fin (of_int d)))
        = TimeValue (msPerDay * D)"
proof -
  define k' where "k' = (if 0 \<le> k \<and> k \<le> 99 then 1900 + k else k)"
  define D where "D = DayFromYear (k' + j div 12)
      + month_start (DaysInYear (k' + j div 12) = 366) (j mod 12) + d - 1"
  have kb: "\<bar>k'\<bar> \<le> 100000" using assms(1) by (simp add: k'_def)
  have jd: "0 \<le> j div 12" "j div 12 \<le> 1" using assms(2,3) by simp_all
  have "- 100001 \<le> k' + j div 12" "k' + j div 12 \<le> 100002" using kb jd by linarith+
  from DayFromYear_bounds [OF this] month_start_bounds [of "DaysInYear (k' + j div 12) = 366" "j mod 12"]
  have Db: "\<bar>D\<bar> \<le> 50000000" using assms(4) unfolding D_def by linarith
  have yr: "(case Fin (real_of_int k) of
               Fin a \<Rightarrow> if 0 \<le> trunc a \<and> trunc a \<le> 99 then Fin (of_int (1900 + trunc a))
                        else Fin (real_of_int k)
             | _ \<Rightarrow> Fin (real_of_int k)) = Fin (of_int k')"
    by (simp add: k'_def)
  have md: "MakeDay (Fin (of_int k')) (Fin (of_int j)) (Fin (of_int d)) = Fin (of_int D)"
    by (simp add: D_def Let_def)
  have mu: "js_mul (Fin (of_int D)) (Fin (of_int msPerDay)) = Fin (of_int (msPerDay * D))"
    by (simp add: mult.commute)
  have "Date_UTC (Fin (of_int k)) (Fin (of_int j)) (Fin (of_int d))
      = getTime (TimeClip (Fin (of_int (msPerDay * D))))"
    unfolding Date_UTC_def Let_def yr md mu ..
  also have "\<dots> = Fin (of_int (msPerDay * D))"
    using Db by (simp only: big_window_time getTime.simps) 
  finally have "new_Date (Date_UTC (Fin (of_int k)) (Fin (of_int j)) (Fin (of_int d)))
      = TimeValue (msPerDay * D)"
    using Db by (simp only: new_Date_def big_window_time)
  with Db show ?thesis by blast
qed

lemma js_rem_7:
  assumes "0 \<le> X"
  shows "js_rem (Fin (of_int X)) (Fin 7) = Fin (of_int (X mod 7))"
proof -
  have "0 \<le> real_of_int X / 7" using assms by simp
  then have "trunc (real_of_int X / 7) = \<lfloor>real_of_int X / 7\<rfloor>" by (simp add: trunc_def)
  also have "\<dots> = X div 7" using floor_divide_of_int_eq [of X 7] by simp
  finally have t: "trunc (real_of_int X / 7) = X div 7" .
  have "real_of_int X - 7 * real_of_int (X div 7) = real_of_int (X - 7 * (X div 7))" by simp
  also have "X - 7 * (X div 7) = X mod 7" by (rule minus_mult_div_eq_mod)
  finally show ?thesis by (simp add: t)
qed

lemma mod7_range: "0 \<le> (x::int) mod 7 \<and> x mod 7 \<le> 6"
proof -
  have "x mod 7 < 7" by simp
  moreover have "0 \<le> x mod 7" by simp
  ultimately show ?thesis by linarith
qed

lemma getUTCDay_TimeValue: "getUTCDay (TimeValue (msPerDay * D)) = Fin (of_int ((D + 4) mod 7))"
  by (simp add: WeekDay_def)

lemma nthWeekdayOfMonth_valid:
  assumes "\<bar>k\<bar> \<le> 100000" and "0 \<le> j" and "j \<le> 11" and "0 \<le> w" and "w \<le> 6"
    and "1 \<le> n" and "n \<le> 5"
  shows "\<exists>t. nthWeekdayOfMonth (Fin (of_int k)) (Fin (of_int j)) (Fin (of_int w)) (Fin (of_int n))
    = TimeValue t"
proof -
  obtain D1 where d1: "new_Date (Date_UTC (Fin (of_int k)) (Fin (of_int j)) (Fin (of_int 1)))
      = TimeValue (msPerDay * D1)"
    using Date_UTC_whole [of k j 1] assms by auto
  define f where "f = (D1 + 4) mod 7"
  have fb: "0 \<le> f" "f \<le> 6" using mod7_range [of "D1 + 4"] by (simp_all add: f_def)
  define c where "c = (7 + w - f) mod 7"
  have cb: "0 \<le> c" "c \<le> 6" using mod7_range [of "7 + w - f"] by (simp_all add: c_def)
  have "js_sub (js_add (Fin 7) (Fin (of_int w))) (Fin (of_int f)) = Fin (of_int (7 + w - f))"
    by (simp add: js_sub_def)
  moreover have "0 \<le> 7 + w - f" using assms fb by linarith
  ultimately have off: "js_rem (js_sub (js_add (Fin 7) (Fin (of_int w))) (Fin (of_int f))) (Fin 7)
      = Fin (of_int c)"
    by (simp only: js_rem_7 c_def)
  have arg: "js_add (js_add (Fin 1) (Fin (of_int c))) (js_mul (Fin 7) (js_sub (Fin (of_int n)) (Fin 1)))
      = Fin (of_int (1 + c + 7 * (n - 1)))"
    by (simp add: js_sub_def)
  have "\<bar>1 + c + 7 * (n - 1)\<bar> \<le> 1000" using cb assms by arith
  then obtain D2 where d2: "new_Date (Date_UTC (Fin (of_int k)) (Fin (of_int j))
        (Fin (of_int (1 + c + 7 * (n - 1))))) = TimeValue (msPerDay * D2)"
    using Date_UTC_whole [of k j "1 + c + 7 * (n - 1)"] assms by auto
  have one: "Fin 1 = Fin (of_int 1)" by simp
  have "nthWeekdayOfMonth (Fin (of_int k)) (Fin (of_int j)) (Fin (of_int w)) (Fin (of_int n))
      = TimeValue (msPerDay * D2)"
    unfolding nthWeekdayOfMonth_def Let_def
    by (subst (1) one, simp only: d1 getUTCDay_TimeValue f_def [symmetric] off arg d2)
  then show ?thesis by blast
qed

lemma addDays_days_big:
  assumes "\<bar>n + k\<bar> \<le> 100000000"
  shows "addDays (date_of_day n) (Fin (of_int k)) = Inr (date_of_day (n + k))"
  by (simp only: addDays_days big_window_time [OF assms]) (simp only: date_of_day_def)

lemma lastWeekdayOfMonth_valid:
  assumes "\<bar>k\<bar> \<le> 100000" and "0 \<le> j" and "j \<le> 11" and "0 \<le> w" and "w \<le> 6"
  shows "\<exists>t. lastWeekdayOfMonth (Fin (of_int k)) (Fin (of_int j)) (Fin (of_int w))
    = Inr (JDate (TimeValue t))"
proof -
  have mj: "js_add (Fin (of_int j)) (Fin 1) = Fin (of_int (j + 1))" by simp
  obtain D1 where db: "\<bar>D1\<bar> \<le> 50000000"
    and d1: "new_Date (Date_UTC (Fin (of_int k)) (Fin (of_int (j + 1))) (Fin (of_int 1)))
      = TimeValue (msPerDay * D1)"
    using Date_UTC_whole [of k "j + 1" 1] assms by auto
  have one: "Fin 1 = Fin (of_int 1)" by simp
  have fn: "JDate (new_Date (Date_UTC (Fin (of_int k)) (js_add (Fin (of_int j)) (Fin 1)) (Fin 1)))
      = date_of_day D1"
    by (subst (2) one, simp only: mj d1 date_of_day_def)
  have m1: "Fin (- 1) = Fin (of_int (- 1))" by simp
  have l: "addDays (date_of_day D1) (Fin (- 1)) = Inr (date_of_day (D1 - 1))"
    using addDays_days_big [of D1 "- 1"] db by (simp only: m1) simp
  define c where "c = (7 + (D1 - 1 + 4) mod 7 - w) mod 7"
  have cb: "0 \<le> c" "c \<le> 6" using mod7_range [of "7 + (D1 - 1 + 4) mod 7 - w"] by (simp_all add: c_def)
  have "js_sub (js_add (Fin 7) (Fin (of_int ((D1 - 1 + 4) mod 7)))) (Fin (of_int w))
      = Fin (of_int (7 + (D1 - 1 + 4) mod 7 - w))"
    by (simp add: js_sub_def)
  moreover have "0 \<le> 7 + (D1 - 1 + 4) mod 7 - w"
    using mod7_range [of "D1 - 1 + 4"] assms by linarith
  ultimately have off: "js_neg (js_rem (js_sub (js_add (Fin 7) (Fin (of_int ((D1 - 1 + 4) mod 7))))
        (Fin (of_int w))) (Fin 7)) = Fin (of_int (- c))"
    by (simp only: js_rem_7 c_def js_neg.simps of_int_minus)
  have r: "addDays (date_of_day (D1 - 1)) (Fin (of_int (- c))) = Inr (date_of_day (D1 - 1 + - c))"
    using db cb by (intro addDays_days_big) linarith
  have "lastWeekdayOfMonth (Fin (of_int k)) (Fin (of_int j)) (Fin (of_int w))
      = Inr (date_of_day (D1 - 1 + - c))"
    unfolding lastWeekdayOfMonth_def Let_def fn
    by (simp only: l ebind.simps getUTCDay_day off r)
  then show ?thesis by (simp add: date_of_day_def)
qed

lemma observedFixed_valid:
  assumes "\<bar>k\<bar> \<le> 100000" and "0 \<le> j" and "j \<le> 11" and "\<bar>d\<bar> \<le> 100"
  shows "\<exists>t. observedFixed (Fin (of_int k)) (Fin (of_int j)) (Fin (of_int d)) = TimeValue t"
proof -
  have a: "js_add (Fin (of_int d)) (Fin 1) = Fin (of_int (d + 1))"
    "js_sub (Fin (of_int d)) (Fin 1) = Fin (of_int (d - 1))"
    by (simp_all add: js_sub_def)
  have "\<exists>D. \<bar>D\<bar> \<le> 50000000 \<and>
      new_Date (Date_UTC (Fin (of_int k)) (Fin (of_int j)) (Fin (of_int d))) = TimeValue (msPerDay * D)"
    using assms by (intro Date_UTC_whole) linarith+
  then obtain D0 where d0: "new_Date (Date_UTC (Fin (of_int k)) (Fin (of_int j)) (Fin (of_int d)))
      = TimeValue (msPerDay * D0)"
    by blast
  have "\<exists>D. \<bar>D\<bar> \<le> 50000000 \<and>
      new_Date (Date_UTC (Fin (of_int k)) (Fin (of_int j)) (Fin (of_int (d + 1)))) = TimeValue (msPerDay * D)"
    using assms by (intro Date_UTC_whole) linarith+
  then obtain D1 where d1: "new_Date (Date_UTC (Fin (of_int k)) (Fin (of_int j)) (Fin (of_int (d + 1))))
      = TimeValue (msPerDay * D1)"
    by blast
  have "\<exists>D. \<bar>D\<bar> \<le> 50000000 \<and>
      new_Date (Date_UTC (Fin (of_int k)) (Fin (of_int j)) (Fin (of_int (d - 1)))) = TimeValue (msPerDay * D)"
    using assms by (intro Date_UTC_whole) linarith+
  then obtain D2 where d2: "new_Date (Date_UTC (Fin (of_int k)) (Fin (of_int j)) (Fin (of_int (d - 1))))
      = TimeValue (msPerDay * D2)"
    by blast
  show ?thesis
    unfolding observedFixed_def Let_def a d0 d1 d2 by auto
qed

text \<open>A date that \<open>federalHolidaySetForYear\<close> can push without an error.\<close>

definition pushable :: "error + jsval \<Rightarrow> bool" where
  "pushable x = (\<exists>t. x = Inr (JDate (TimeValue t)))"

lemma push_all_returns: "list_all pushable ds \<Longrightarrow> \<exists>S. push_all ds acc = Inr S"
proof (induction ds arbitrary: acc)
  case Nil
  show ?case by simp
next
  case (Cons d ds)
  then obtain t where d: "d = Inr (JDate (TimeValue t))" by (auto simp: pushable_def)
  have "\<exists>s. ymd (JDate (TimeValue t)) = Inr s" by simp
  then obtain s where s: "ymd (JDate (TimeValue t)) = Inr s" by blast
  from Cons have "\<exists>S. push_all ds (insert s acc) = Inr S" by simp
  then show ?case by (simp only: d s push_all.simps sum.case)
qed

lemma federalHolidaySetForYear_returns:
  assumes "\<bar>k\<bar> \<le> 100000"
  shows "\<exists>S. federalHolidaySetForYear (Fin (of_int k)) = Inr S"
proof -
  have o: "pushable (Inr (JDate (observedFixed (Fin (of_int k)) (Fin (of_int j)) (Fin (of_int d)))))"
    if "0 \<le> j" "j \<le> 11" "\<bar>d\<bar> \<le> 100" for j d
    using observedFixed_valid [OF assms that] by (auto simp: pushable_def)
  have n: "pushable (Inr (JDate (nthWeekdayOfMonth (Fin (of_int k)) (Fin (of_int j)) (Fin (of_int w))
        (Fin (of_int i)))))"
    if "0 \<le> j" "j \<le> 11" "0 \<le> w" "w \<le> 6" "1 \<le> i" "i \<le> 5" for j w i
    using nthWeekdayOfMonth_valid [OF assms that] by (auto simp: pushable_def)
  have l: "pushable (lastWeekdayOfMonth (Fin (of_int k)) (Fin (of_int j)) (Fin (of_int w)))"
    if "0 \<le> j" "j \<le> 11" "0 \<le> w" "w \<le> 6" for j w
    using lastWeekdayOfMonth_valid [OF assms that] by (auto simp: pushable_def)
  have "list_all pushable (holiday_dates (Fin (of_int k)))"
    unfolding holiday_dates_def
    using o [of 0 1] n [of 0 1 3] n [of 1 1 3] l [of 4 1] o [of 5 19] o [of 6 4] n [of 8 1 1]
      n [of 9 1 2] o [of 10 11] n [of 10 4 4] o [of 11 25]
    by simp
  then show ?thesis unfolding federalHolidaySetForYear_def by (rule push_all_returns)
qed

lemma holiday_loop_returns:
  assumes "- 100000 \<le> a" and "b \<le> 100000"
  shows "\<exists>H. holiday_loop (of_int a) (of_int b) acc = Inr H"
  using assms(1)
proof (induction "nat (b + 1 - a)" arbitrary: a acc)
  case 0
  then have "b < a" by simp
  then show ?case by (subst holiday_loop.simps) simp
next
  case (Suc m)
  then have le: "a \<le> b" by linarith
  have "\<bar>a\<bar> \<le> 100000" using Suc.prems le assms(2) by linarith
  then obtain S where s: "federalHolidaySetForYear (Fin (of_int a)) = Inr S"
    using federalHolidaySetForYear_returns by blast
  have m: "m = nat (b + 1 - (a + 1))" using Suc.hyps(2) by linarith
  have "\<exists>H. holiday_loop (of_int (a + 1)) (of_int b) (acc \<union> S) = Inr H"
    using Suc.hyps(1) [OF m] Suc.prems by simp
  then have "\<exists>H. holiday_loop (of_int a + 1) (of_int b) (acc \<union> S) = Inr H" by simp
  then show ?case using le by (subst holiday_loop.simps) (simp add: s)
qed

text \<open>The set of holiday texts that the code computes for the years \<open>a\<close> to \<open>b\<close>.\<close>

definition holiday_set :: "int \<Rightarrow> int \<Rightarrow> string set" where
  "holiday_set a b =
     (case holidaySetForRange (Fin (of_int a)) (Fin (of_int b)) of Inr H \<Rightarrow> H | Inl e \<Rightarrow> {})"

lemma holidaySetForRange_returns:
  assumes "- 100000 \<le> a" and "b \<le> 100000"
  shows "holidaySetForRange (Fin (of_int a)) (Fin (of_int b)) = Inr (holiday_set a b)"
proof -
  obtain H where "holiday_loop (of_int a) (of_int b) {} = Inr H"
    using holiday_loop_returns [OF assms] by blast
  then show ?thesis by (simp add: holiday_set_def holidaySetForRange_def)
qed

text \<open>
  The holidays that \<open>totalPtoHoursUpTo\<close> takes into account at target day \<open>t\<close> when the
  start date of the settings is day \<open>s\<close>: those of the years around both.
\<close>

definition holidays_for :: "int \<Rightarrow> int \<Rightarrow> string set" where
  "holidays_for s t = holiday_set (min (year_of s) (year_of t) - 1) (max (year_of s) (year_of t) + 1)"

lemma getUTCFullYear_day: "date_getUTCFullYear (date_of_day n) = Inr (Fin (of_int (year_of n)))"
  by (simp add: date_of_day_def civil_of_time)

lemma year_bounds_numbers:
  "js_sub (Math_min (Fin (of_int y1)) (Fin (of_int y2))) (Fin 1) = Fin (of_int (min y1 y2 - 1))"
  "js_add (Math_max (Fin (of_int y1)) (Fin (of_int y2))) (Fin 1) = Fin (of_int (max y1 y2 + 1))"
  by (simp_all add: Math_min_def Math_max_def js_sub_def min_def max_def)

lemma totalCreditsUpTo_creditHoursUpTo: "totalCreditsUpTo st target = creditHoursUpTo st target"
  by (simp add: totalCreditsUpTo_def creditHoursUpTo_def)

text \<open>A range that adds nothing, or is skipped, can be left out of the ledger.\<close>

lemma js_add_zero_hours: "js_add h (js_mul (Fin 0) (Fin 8)) = h"
  by (cases h) simp_all

lemma ptoHours_loop_skip:
  assumes "ptoRange_hours target r = Inr None \<or> ptoRange_hours target r = Inr (Some (Fin 0))"
  shows "ptoHours_loop target (xs @ r # ys) h = ptoHours_loop target (xs @ ys) h"
proof (induction xs arbitrary: h)
  case Nil
  have "js_add h (Fin 0) = h" by (cases h) simp_all
  with assms show ?case by auto
next
  case (Cons x xs)
  then show ?case by (simp split: sum.splits option.splits)
qed

lemma ptoRanges_loop_skip:
  assumes "ptoRange_business_hours target H r = Inr None
    \<or> ptoRange_business_hours target H r = Inr (Some (Fin 0))"
  shows "ptoRanges_loop target H (xs @ r # ys) h = ptoRanges_loop target H (xs @ ys) h"
proof (induction xs arbitrary: h)
  case Nil
  have "js_add h (Fin 0) = h" by (cases h) simp_all
  with assms show ?case by auto
next
  case (Cons x xs)
  then show ?case by (simp split: sum.splits option.splits)
qed

lemma inverted_range_hours:
  assumes "in_window t" and "range_days r (a, b)" and "b < a"
  shows "ptoRange_hours (date_of_day t) r = Inr None
    \<or> ptoRange_hours (date_of_day t) r = Inr (Some (Fin 0))"
proof -
  have "min b t < a" using assms(3) by simp
  then have "weekdays_in a (min b t) = 0" by (rule weekdays_in_empty)
  then show ?thesis by (simp add: ptoRange_hours_days [OF assms(1,2)])
qed

lemma inverted_range_business_hours:
  assumes "in_window t" and "range_days r (a, b)" and "b < a"
  shows "ptoRange_business_hours (date_of_day t) H r = Inr None
    \<or> ptoRange_business_hours (date_of_day t) H r = Inr (Some (Fin 0))"
proof -
  have "min b t < a" using assms(3) by simp
  then have "business_days_in H a (min b t) = 0" by (rule business_days_in_empty)
  then show ?thesis by (simp add: ptoRange_business_hours_days [OF assms(1,2)])
qed

lemma ptoHoursUpTo_inverted:
  assumes "calendar_day target t" and "range_days r (a, b)" and "b < a"
  shows "ptoHoursUpTo (st \<lparr> ptoRanges := xs @ r # ys \<rparr>) target
    = ptoHoursUpTo (st \<lparr> ptoRanges := xs @ ys \<rparr>) target"
proof -
  have t: "toDateOnlyUTC target = Inr (date_of_day t)" and w: "in_window t"
    using assms(1) by (simp_all add: calendar_day_def)
  show ?thesis
    by (simp add: ptoHoursUpTo_def t ptoHours_loop_skip [OF inverted_range_hours [OF w assms(2,3)]])
qed

lemma totalPtoHoursUpTo_inverted:
  assumes "calendar_day target t" and "range_days r (a, b)" and "b < a"
  shows "totalPtoHoursUpTo (st \<lparr> ptoRanges := xs @ r # ys \<rparr>) target
    = totalPtoHoursUpTo (st \<lparr> ptoRanges := xs @ ys \<rparr>) target"
proof -
  have t: "toDateOnlyUTC target = Inr (date_of_day t)" and w: "in_window t"
    using assms(1) by (simp_all add: calendar_day_def)
  have "ptoRanges_loop (date_of_day t) H (xs @ r # ys) = ptoRanges_loop (date_of_day t) H (xs @ ys)"
    for H
    by (rule ext) (rule ptoRanges_loop_skip [OF inverted_range_business_hours [OF w assms(2,3)]])
  then show ?thesis
    by (simp add: totalPtoHoursUpTo_def t)
qed

lemma getBalanceOn_inverted:
  assumes "calendar_day target t" and "range_days r (a, b)" and "b < a"
  shows "getBalanceOn (st \<lparr> ptoRanges := xs @ r # ys \<rparr>) target
    = getBalanceOn (st \<lparr> ptoRanges := xs @ ys \<rparr>) target"
  by (simp add: getBalanceOn_def ptoHoursUpTo_inverted [OF assms] creditHoursUpTo_def)

lemma getBalanceOn_holidays_inverted:
  assumes "calendar_day target t" and "range_days r (a, b)" and "b < a"
  shows "getBalanceOn_holidays (st \<lparr> ptoRanges := xs @ r # ys \<rparr>) target
    = getBalanceOn_holidays (st \<lparr> ptoRanges := xs @ ys \<rparr>) target"
  by (simp add: getBalanceOn_holidays_def totalPtoHoursUpTo_inverted [OF assms]
      totalCreditsUpTo_def)

section \<open>The forecast on day numbers\<close>

text \<open>
  The point of the forecast series for the \<open>i\<close>-th day after the time \<open>t0\<close>, when the
  balance on day \<open>k\<close> is \<open>F k\<close>.
\<close>

definition forecast_point :: "(int \<Rightarrow> jsnum) \<Rightarrow> int \<Rightarrow> int \<Rightarrow> point" where
  "forecast_point F t0 i =
     \<lparr> point_date = JDate (TimeValue (t0 + i * msPerDay)), point_y = F (Day t0 + i) \<rparr>"

lemma forecast_loop_days:
  assumes "\<And>k. in_window k \<Longrightarrow> balanceOn (JStr (day_text k)) = Inr (F k)"
    and "- 683003 \<le> Day t0 + i" and "in_window (Day t0 + n)"
  shows "forecast_loop balanceOn (JDate (TimeValue t0)) (Fin (of_int n)) i series
    = Inr (series @ map (forecast_point F t0) [i..n])"
  using assms(2)
proof (induction "nat (n + 1 - i)" arbitrary: i series)
  case 0
  then have "n < i" by simp
  then show ?case by (subst forecast_loop.simps) (simp add: js_le_def)
next
  case (Suc m)
  then have le: "i \<le> n" by linarith
  have wi: "in_window (Day t0 + i)"
    using Suc.prems le assms(3) by (simp add: in_window_bounds)
  have m: "m = nat (n + 1 - (i + 1))" using Suc.hyps(2) by linarith
  have ih: "forecast_loop balanceOn (JDate (TimeValue t0)) (Fin (of_int n)) (i + 1) series'
      = Inr (series' @ map (forecast_point F t0) [i + 1..n])" for series'
    using Suc.hyps(1) [OF m] Suc.prems by simp
  have a: "addDays (JDate (TimeValue t0)) (Fin (of_int i))
      = Inr (JDate (TimeValue (t0 + i * msPerDay)))"
    by (rule addDays_Date [OF wi])
  have wd: "in_window (Day (t0 + i * msPerDay))" using wi by (simp add: Day_add_days)
  have y: "ymd (JDate (TimeValue (t0 + i * msPerDay))) = Inr (day_text (Day t0 + i))"
    using ymd_Date [OF wd] by (simp add: Day_add_days)
  have b: "balanceOn (JStr (day_text (Day t0 + i))) = Inr (F (Day t0 + i))"
    by (rule assms(1) [OF wi])
  have c: "js_le (Fin (of_int i)) (Fin (of_int n))" using le by (simp add: js_le_def)
  show ?case
    by (subst forecast_loop.simps)
      (simp only: c if_True a y b sum.case ih upto_rec1 [OF le] list.map append_assoc
        append_Cons append_Nil forecast_point_def)
qed

section \<open>The balance in the order of the code's operations\<close>

text \<open>
  The balance as the code's own sequence of operations. Day numbers, counts of days and
  of periods (for a whole period) and the hours of leave ranges are whole numbers, on
  which the arithmetic of doubles is exact; the start balance, the accrual and the
  hours of credits and single-day entries may be fractions, so the results below keep
  the additions and the multiplication in the order in which the code performs them.
\<close>

lemma js_div_finite: "b \<noteq> 0 \<Longrightarrow> js_div (Fin a) (Fin b) = Fin (a / b)"
  by simp

lemma floor_quotient_plus_one:
  assumes "p \<noteq> 0"
  shows "js_add (Math_floor (js_div (Fin (of_int d)) (Fin (of_int p)))) (Fin 1)
    = Fin (of_int (d div p + 1))"
proof -
  have "(of_int p :: real) \<noteq> 0" using assms by simp
  then have "js_div (Fin (of_int d)) (Fin (of_int p)) = Fin (of_int d / of_int p)"
    by (rule js_div_finite)
  then have "Math_floor (js_div (Fin (of_int d)) (Fin (of_int p))) = Fin (of_int (d div p))"
    by (simp only: Math_floor.simps floor_divide_of_int_eq)
  then show ?thesis by simp
qed

lemma countPaydays_whole:
  assumes "calendar_day x f" and "calendar_day y t" and "p \<noteq> 0"
  shows "countPaydays x y (Fin (of_int p))
    = Inr (Fin (of_int (if t < f then 0 else (t - f) div p + 1)))"
proof -
  have "(of_int p :: real) \<noteq> 0" using assms(3) by simp
  from countPaydays_calendar [OF assms(1,2) this]
  have "countPaydays x y (Fin (of_int p))
      = Inr (Fin (if t < f then 0 else of_int ((t - f) div p) + 1))"
    by (simp only: floor_divide_of_int_eq)
  then show ?thesis by (cases "t < f") simp_all
qed

lemma countPaydays_returns:
  assumes "calendar_day x f" and "calendar_day y t"
  shows "\<exists>n. countPaydays x y q = Inr n"
  by (simp add: countPaydays_def clampDate_calendar_day [OF assms(1)]
      clampDate_calendar_day [OF assms(2)] daysBetween_calendar [OF calendar_day_date_of_day
        calendar_day_date_of_day] assms [unfolded calendar_day_def])

lemma countPaydays_date_of_day:
  assumes "calendar_day x f" and "calendar_day y t"
  shows "countPaydays (date_of_day f) (date_of_day t) q = countPaydays x y q"
proof -
  have w: "in_window f" "in_window t" using assms by (simp_all add: calendar_day_def)
  show ?thesis
    by (simp add: countPaydays_def clampDate_calendar_day [OF assms(1)]
        clampDate_calendar_day [OF assms(2)] clampDate_date_of_day w)
qed

lemma getBalanceOn_steps:
  assumes "calendar_day target t" and "calendar_day (firstPayday st) f"
    and "list_all2 range_days (ptoRanges st) rds" and "list_all2 credit_day (credits st) cds"
    and "countPaydays (firstPayday st) target (js_or (ToNumber (payFrequencyDays st)) (Fin 14))
      = Inr n"
  shows "getBalanceOn st target
    = Inr (js_add (js_sub
        (if f \<le> t
         then js_add (js_or (ToNumber (startBalance st)) (Fin 0))
                (js_mul n (js_or (ToNumber (accrualPerPeriod st)) (Fin 0)))
         else js_or (ToNumber (startBalance st)) (Fin 0))
        (Fin (of_int (leave_hours rds t))))
        (credit_sum (zip (credits st) cds) t))"
proof -
  have t: "toDateOnlyUTC target = Inr (date_of_day t)"
    using assms(1) by (simp add: calendar_day_def)
  have f: "toDateOnlyUTC (firstPayday st) = Inr (date_of_day f)"
    using assms(2) by (simp add: calendar_day_def)
  have c: "countPaydays (date_of_day f) (date_of_day t)
      (js_or (ToNumber (payFrequencyDays st)) (Fin 14)) = Inr n"
    using assms(5) by (simp only: countPaydays_date_of_day [OF assms(2,1)])
  show ?thesis
    by (simp add: getBalanceOn_def t f c ptoHoursUpTo_days [OF assms(1,3)]
        creditHoursUpTo_days [OF assms(1,4)])
qed

lemma getBalanceOn_returns:
  assumes "calendar_day target t" and "calendar_day (firstPayday st) f"
    and "list_all2 range_days (ptoRanges st) rds" and "list_all2 credit_day (credits st) cds"
  shows "\<exists>y. getBalanceOn st target = Inr y"
proof -
  obtain n where "countPaydays (firstPayday st) target
      (js_or (ToNumber (payFrequencyDays st)) (Fin 14)) = Inr n"
    using countPaydays_returns [OF assms(2,1)] by blast
  from getBalanceOn_steps [OF assms this] show ?thesis by blast
qed

text \<open>
  The revision with holiday logic: a single-day entry dated as day \<open>d\<close>, the sum of the
  hours of the entries that count at day \<open>t\<close>, and the two loops of \<open>totalPtoHoursUpTo\<close>
  as folds in the order of the ledgers.
\<close>

definition entry_day :: "ptoEntry \<Rightarrow> int \<Rightarrow> bool" where
  "entry_day e d = calendar_day (pto_date e) d"

definition entry_sum :: "string set \<Rightarrow> (ptoEntry \<times> int) list \<Rightarrow> int \<Rightarrow> jsnum" where
  "entry_sum H eds t =
     foldl js_add (Fin 0) (map (\<lambda>(e, d). clamp_hours (pto_hours e))
       (filter (\<lambda>(e, d). d \<le> t \<and> business_day H d) eds))"

lemma ptoEntries_loop_fold:
  assumes "in_window t" and "list_all2 entry_day es ds"
  shows "ptoEntries_loop (date_of_day t) H es h
    = Inr (foldl js_add h (map (\<lambda>(e, d). clamp_hours (pto_hours e))
        (filter (\<lambda>(e, d). d \<le> t \<and> business_day H d) (zip es ds))))"
  using assms(2)
proof (induction es ds arbitrary: h rule: list_all2_induct)
  case Nil
  show ?case by simp
next
  case (Cons e es d ds)
  have t: "toDateOnlyUTC (pto_date e) = Inr (date_of_day d)" and w: "in_window d"
    using Cons.hyps(1) by (simp_all add: entry_day_def calendar_day_def)
  show ?case
    using Cons.IH by (simp add: t isBusinessDay_day [OF w])
qed

lemma ptoRanges_loop_fold:
  assumes "in_window t" and "list_all2 range_days rs ds"
  shows "ptoRanges_loop (date_of_day t) H rs h
    = Inr (foldl js_add h (map (\<lambda>(a, b). Fin (of_int (8 * business_days_in H a (min b t))))
        (filter (\<lambda>(a, b). a \<le> t) ds)))"
  using assms(2)
proof (induction rs ds arbitrary: h rule: list_all2_induct)
  case Nil
  show ?case by simp
next
  case (Cons r rs ab ds)
  obtain a b where ab: "ab = (a, b)" by (cases ab)
  show ?case
    using Cons.hyps(1) Cons.IH
    by (simp add: ab ptoRange_business_hours_days [OF assms(1)])
qed

lemma foldl_js_add_whole:
  "foldl js_add (Fin r) (map (\<lambda>(a, b). Fin (of_int (g a b))) xs)
    = Fin (r + of_int (sum_list (map (\<lambda>(a, b). g a b) xs)))"
  by (induction xs arbitrary: r) (auto simp: algebra_simps)

lemma totalPtoHoursUpTo_fold:
  assumes "calendar_day target t" and "calendar_day (startDate st) s"
    and "list_all2 range_days (ptoRanges st) rds" and "list_all2 entry_day (pto st) pds"
  shows "totalPtoHoursUpTo st target
    = Inr (foldl js_add (entry_sum (holidays_for s t) (zip (pto st) pds) t)
        (map (\<lambda>(a, b). Fin (of_int (8 * business_days_in (holidays_for s t) a (min b t))))
          (filter (\<lambda>(a, b). a \<le> t) rds)))"
proof -
  have t: "toDateOnlyUTC target = Inr (date_of_day t)" and wt: "in_window t"
    using assms(1) by (simp_all add: calendar_day_def)
  have s: "toDateOnlyUTC (startDate st) = Inr (date_of_day s)" and ws: "in_window s"
    using assms(2) by (simp_all add: calendar_day_def)
  have y: "100 \<le> year_of s" "year_of s \<le> 9999" "100 \<le> year_of t" "year_of t \<le> 9999"
    using in_window_year [OF ws] in_window_year [OF wt] by (simp_all add: year_of_def)
  have h: "holidaySetForRange (Fin (of_int (min (year_of s) (year_of t) - 1)))
      (Fin (of_int (max (year_of s) (year_of t) + 1))) = Inr (holidays_for s t)"
    unfolding holidays_for_def using y by (intro holidaySetForRange_returns) simp_all
  show ?thesis
    unfolding totalPtoHoursUpTo_def
    by (simp only: t s ebind.simps getUTCFullYear_day year_bounds_numbers h
        ptoEntries_loop_fold [OF wt assms(4)] ptoRanges_loop_fold [OF wt assms(3)] entry_sum_def)
qed

lemma getBalanceOn_holidays_steps:
  assumes "calendar_day target t" and "calendar_day (firstPayday st) f"
    and "calendar_day (startDate st) s"
    and "list_all2 range_days (ptoRanges st) rds" and "list_all2 credit_day (credits st) cds"
    and "list_all2 entry_day (pto st) pds"
    and "countPaydays (firstPayday st) target (js_or (ToNumber (payFrequencyDays st)) (Fin 14))
      = Inr n"
  shows "getBalanceOn_holidays st target
    = Inr (js_add (js_sub
        (if f \<le> t
         then js_add (js_or (ToNumber (startBalance st)) (Fin 0))
                (js_mul n (js_or (ToNumber (accrualPerPeriod st)) (Fin 0)))
         else js_or (ToNumber (startBalance st)) (Fin 0))
        (foldl js_add (entry_sum (holidays_for s t) (zip (pto st) pds) t)
          (map (\<lambda>(a, b). Fin (of_int (8 * business_days_in (holidays_for s t) a (min b t))))
            (filter (\<lambda>(a, b). a \<le> t) rds))))
        (credit_sum (zip (credits st) cds) t))"
proof -
  have t: "toDateOnlyUTC target = Inr (date_of_day t)"
    using assms(1) by (simp add: calendar_day_def)
  have f: "toDateOnlyUTC (firstPayday st) = Inr (date_of_day f)"
    using assms(2) by (simp add: calendar_day_def)
  have c: "countPaydays (date_of_day f) (date_of_day t)
      (js_or (ToNumber (payFrequencyDays st)) (Fin 14)) = Inr n"
    using assms(7) by (simp only: countPaydays_date_of_day [OF assms(2,1)])
  show ?thesis
    by (simp add: getBalanceOn_holidays_def t f c totalPtoHoursUpTo_fold [OF assms(1,3,4,6)]
        totalCreditsUpTo_creditHoursUpTo creditHoursUpTo_days [OF assms(1,5)])
qed

lemma getBalanceOn_holidays_returns:
  assumes "calendar_day target t" and "calendar_day (firstPayday st) f"
    and "calendar_day (startDate st) s"
    and "list_all2 range_days (ptoRanges st) rds" and "list_all2 credit_day (credits st) cds"
    and "list_all2 entry_day (pto st) pds"
  shows "\<exists>y. getBalanceOn_holidays st target = Inr y"
proof -
  obtain n where "countPaydays (firstPayday st) target
      (js_or (ToNumber (payFrequencyDays st)) (Fin 14)) = Inr n"
    using countPaydays_returns [OF assms(2,1)] by blast
  from getBalanceOn_holidays_steps [OF assms this] show ?thesis by blast
qed

section \<open>The entries of the forecast series\<close>

text \<open>
  What the forecast loop returns: one entry for each of the days \<open>0\<close>, ..., \<open>n\<close> after the
  start, dated by \<open>addDays\<close>, with the balance of the text of its date.
\<close>

lemma forecast_loop_series:
  assumes "\<And>k. in_window k \<Longrightarrow> balanceOn (JStr (day_text k)) = Inr (F k)"
    and "in_window (Day t0)" and "in_window (Day t0 + n)"
  shows "forecast_loop balanceOn (JDate (TimeValue t0)) (Fin (of_int n)) 0 []
    = Inr (map (forecast_point F t0) [0..n])"
proof -
  have lo: "- 683003 \<le> Day t0 + 0" using assms(2) by (simp add: in_window_bounds)
  show ?thesis
    using forecast_loop_days [of balanceOn F t0 0 n "[]", OF assms(1) lo assms(3)] by simp
qed

lemma forecast_point_nth:
  assumes "\<And>k. in_window k \<Longrightarrow> balanceOn (JStr (day_text k)) = Inr (F k)"
    and "in_window (Day t0)" and "in_window (Day t0 + n)" and "0 \<le> n" and "i \<le> nat n"
  shows "addDays (JDate (TimeValue t0)) (Fin (of_nat i))
      = Inr (point_date (map (forecast_point F t0) [0..n] ! i))"
    and "point_date (map (forecast_point F t0) [0..n] ! i) = JDate (TimeValue (t0 + int i * msPerDay))"
    and "ymd (point_date (map (forecast_point F t0) [0..n] ! i)) = Inr (day_text (Day t0 + int i))"
    and "balanceOn (JStr (day_text (Day t0 + int i)))
      = Inr (point_y (map (forecast_point F t0) [0..n] ! i))"
proof -
  have il: "i < length [0..n]" using assms(4,5) by simp
  have nth: "[0..n] ! i = int i" using assms(4,5) by (simp add: nth_upto)
  have pt: "map (forecast_point F t0) [0..n] ! i = forecast_point F t0 (int i)"
    using il nth by simp
  have "int i \<le> n" using assms(4,5) by linarith
  then have wi: "in_window (Day t0 + int i)"
    using assms(2,3) by (simp add: in_window_bounds)
  have a: "addDays (JDate (TimeValue t0)) (Fin (of_int (int i)))
      = Inr (JDate (TimeValue (t0 + int i * msPerDay)))"
    by (rule addDays_Date [OF wi])
  have wd: "in_window (Day (t0 + int i * msPerDay))" using wi by (simp add: Day_add_days)
  have y: "ymd (JDate (TimeValue (t0 + int i * msPerDay))) = Inr (day_text (Day t0 + int i))"
    using ymd_Date [OF wd] by (simp add: Day_add_days)
  show "addDays (JDate (TimeValue t0)) (Fin (of_nat i))
      = Inr (point_date (map (forecast_point F t0) [0..n] ! i))"
    using a by (simp add: pt forecast_point_def)
  show "point_date (map (forecast_point F t0) [0..n] ! i) = JDate (TimeValue (t0 + int i * msPerDay))"
    by (simp add: pt forecast_point_def)
  show "ymd (point_date (map (forecast_point F t0) [0..n] ! i)) = Inr (day_text (Day t0 + int i))"
    using y by (simp only: pt forecast_point_def point.simps)
  show "balanceOn (JStr (day_text (Day t0 + int i)))
      = Inr (point_y (map (forecast_point F t0) [0..n] ! i))"
    using assms(1) [OF wi] by (simp only: pt forecast_point_def point.simps)
qed

section \<open>Claims about the code\<close>

text \<open>
  Claim C9, as the code has it. \<open>toDateOnlyUTC\<close> returns \<open>null\<close> for \<open>null\<close>, \<open>undefined\<close>
  and the empty string. For every non-empty string it returns a \<open>Date\<close> object, never
  \<open>null\<close>; when the year, month or day piece of the string is missing or is not a
  number, that object is an Invalid Date (its time value is \<open>NaN\<close>).
\<close>

theorem toDateOnlyUTC_null_or_date:
  "toDateOnlyUTC JNull = Inr JNull \<and> toDateOnlyUTC JUndefined = Inr JNull
   \<and> toDateOnlyUTC (JStr []) = Inr JNull
   \<and> (\<forall>s. s \<noteq> [] \<longrightarrow> (\<exists>d. toDateOnlyUTC (JStr s) = Inr (JDate d)))
   \<and> (\<forall>s. s \<noteq> [] \<and> unparseable s \<longrightarrow> toDateOnlyUTC (JStr s) = Inr (JDate InvalidDate))"
proof (intro conjI allI impI)
  show "toDateOnlyUTC JNull = Inr JNull" by (simp add: toDateOnlyUTC_def)
  show "toDateOnlyUTC JUndefined = Inr JNull" by (simp add: toDateOnlyUTC_def)
  show "toDateOnlyUTC (JStr []) = Inr JNull" by (simp add: toDateOnlyUTC_def)
next
  fix s :: string assume "s \<noteq> []"
  then show "\<exists>d. toDateOnlyUTC (JStr s) = Inr (JDate d)"
    by (simp add: toDateOnlyUTC_string)
next
  fix s :: string assume a: "s \<noteq> [] \<and> unparseable s"
  then have "elem_num (date_pieces s) 0 = NaN
      \<or> js_sub (elem_num (date_pieces s) 1) (Fin 1) = NaN
      \<or> elem_num (date_pieces s) 2 = NaN"
    by (auto simp: unparseable_def js_sub_def)
  from Date_UTC_NaN [OF this] a show "toDateOnlyUTC (JStr s) = Inr (JDate InvalidDate)"
    by (simp add: toDateOnlyUTC_string)
qed

theorem toDateOnlyUTC_null_or_date_witness:
  "''tomorrow'' \<noteq> [] \<and> unparseable ''tomorrow''
   \<and> toDateOnlyUTC (JStr ''tomorrow'') = Inr (JDate InvalidDate)"
proof -
  have u: "''tomorrow'' \<noteq> [] \<and> unparseable ''tomorrow''" by code_simp
  with toDateOnlyUTC_null_or_date show ?thesis by blast
qed

text \<open>
  The claim as stated fails: an unparseable string does not give \<open>null\<close> but an Invalid
  Date, and with the default state \<open>getBalanceOn\<close> then returns the start balance for
  it without any error.
\<close>

theorem toDateOnlyUTC_unparseable_counterexample:
  "toDateOnlyUTC (JStr ''2026-1x-08'') = Inr (JDate InvalidDate)
   \<and> toDateOnlyUTC (JStr ''2026-1x-08'') \<noteq> Inr JNull
   \<and> getBalanceOn DEFAULTS (JStr ''2026-1x-08'') = Inr (Fin (- 15.78))"
  by code_simp

text \<open>
  Claim C4. For every range from day \<open>s\<close> to day \<open>e\<close>, first payday \<open>f\<close> (all of the
  years 100 to 9999) and positive whole period \<open>p\<close>, \<open>getPaydaysBetween\<close> returns, and
  returns the dates of exactly the paydays \<open>f + k * p\<close> (\<open>k \<ge> 0\<close>) among the days
  \<open>s\<close>, ..., \<open>e\<close>, in strictly increasing order. The sequence is empty when there is
  none, and otherwise begins with the result of \<open>nextPaydayOnOrAfter\<close>, the first payday
  on or after \<open>s\<close>.
\<close>

theorem getPaydaysBetween_paydays:
  assumes "calendar_day x s" and "calendar_day y e" and "calendar_day z f" and "0 < p"
  shows "getPaydaysBetween x y z (Fin (of_int p))
      = Some (Inr (map date_of_day (filter (payday f p) [s..e])))
    \<and> sorted_wrt (<) (filter (payday f p) [s..e])
    \<and> set (filter (payday f p) [s..e]) = {d. s \<le> d \<and> d \<le> e \<and> payday f p d}
    \<and> nextPaydayOnOrAfter x z (Fin (of_int p)) = Inr (clipped_day (next_payday f p s))
    \<and> payday f p (next_payday f p s) \<and> s \<le> next_payday f p s
    \<and> filter (payday f p) [s..e]
        = (if next_payday f p s \<le> e
           then next_payday f p s # filter (payday f p) [next_payday f p s + 1..e]
           else [])"
proof -
  note sp = next_payday_spec [OF assms(4), of f s]
  have "sorted_wrt (<) [s..e]"
    using strict_sorted_iff [of "[s..e]"] by simp
  then have so: "sorted_wrt (<) (filter (payday f p) [s..e])"
    by (rule sorted_wrt_filter)
  have hd: "filter (payday f p) [s..e]
        = (if next_payday f p s \<le> e
           then next_payday f p s # filter (payday f p) [next_payday f p s + 1..e]
           else [])"
    using sp by (simp add: filter_from_next_payday [OF assms(4), of f s e]
        upto_rec1 [of "next_payday f p s" e])
  have st: "set (filter (payday f p) [s..e]) = {d. s \<le> d \<and> d \<le> e \<and> payday f p d}"
    by auto
  show ?thesis
    using getPaydaysBetween_calendar [OF assms] nextPaydayOnOrAfter_calendar [OF assms(1,3,4)]
      so hd st sp
    by simp
qed

theorem getPaydaysBetween_paydays_witness:
  "calendar_day (JStr ''2026-01-01'') 20454 \<and> calendar_day (JStr ''2026-01-31'') 20484
   \<and> calendar_day (JStr ''2026-01-08'') 20461 \<and> (0::int) < 14
   \<and> getPaydaysBetween (JStr ''2026-01-01'') (JStr ''2026-01-31'') (JStr ''2026-01-08'') (Fin 14)
       = Some (Inr [date_of_day 20461, date_of_day 20475])
   \<and> ymd (date_of_day 20461) = Inr ''2026-01-08'' \<and> ymd (date_of_day 20475) = Inr ''2026-01-22''"
proof -
  have a: "calendar_day (JStr ''2026-01-01'') 20454" by code_simp
  have b: "calendar_day (JStr ''2026-01-31'') 20484" by code_simp
  have c: "calendar_day (JStr ''2026-01-08'') 20461" by code_simp
  have d: "(0::int) < 14" by simp
  have f: "filter (payday 20461 14) [20454..20484] = [20461, 20475]" by code_simp
  have y: "ymd (date_of_day 20461) = Inr ''2026-01-08''"
    "ymd (date_of_day 20475) = Inr ''2026-01-22''" by code_simp+
  have "getPaydaysBetween (JStr ''2026-01-01'') (JStr ''2026-01-31'') (JStr ''2026-01-08'')
        (Fin (of_int 14))
      = Some (Inr (map date_of_day (filter (payday 20461 14) [20454..20484])))"
    by (rule getPaydaysBetween_paydays [OF a b c d, THEN conjunct1])
  then have g: "getPaydaysBetween (JStr ''2026-01-01'') (JStr ''2026-01-31'')
        (JStr ''2026-01-08'') (Fin 14) = Some (Inr [date_of_day 20461, date_of_day 20475])"
    by (simp only: f of_int_numeral list.map)
  show ?thesis by (intro conjI a b c d y g)
qed

text \<open>
  Claim C6. For every ledger of credits dated in the years 100 to 9999 and every target
  date of those years, \<open>creditHoursUpTo\<close> returns the sum of the clamped hours over
  exactly the credits dated on or before the target, where the clamped hours of an
  entry are its hours as a number when that is positive, and 0 when it is not positive
  or not a number; with no infinite hours the sum is the real sum. A 10-hour credit
  dated 2026-01-10 gives 0 at 2026-01-09 and 10 at 2026-01-10.
\<close>

theorem creditHoursUpTo_sum:
  assumes "calendar_day target t" and "list_all2 credit_day (credits st) ds"
  shows "creditHoursUpTo st target
      = Inr (foldl js_add (Fin 0)
          (map (\<lambda>(c, d). clamp_hours (credit_hours c))
            (filter (\<lambda>(c, d). d \<le> t) (zip (credits st) ds))))
    \<and> (\<forall>h. clamp_hours h = (if js_lt (Fin 0) (ToNumber h) then ToNumber h else Fin 0))
    \<and> (list_all finite_hours (credits st) \<longrightarrow>
         creditHoursUpTo st target
           = Inr (Fin (sum_list (map (\<lambda>(c, d). credit_worth (credit_hours c))
               (filter (\<lambda>(c, d). d \<le> t) (zip (credits st) ds))))))"
proof (intro conjI allI impI)
  show "creditHoursUpTo st target
      = Inr (foldl js_add (Fin 0)
          (map (\<lambda>(c, d). clamp_hours (credit_hours c))
            (filter (\<lambda>(c, d). d \<le> t) (zip (credits st) ds))))"
    using creditHoursUpTo_days [OF assms] by (simp only: credit_sum_def)
next
  fix h show "clamp_hours h = (if js_lt (Fin 0) (ToNumber h) then ToNumber h else Fin 0)"
    by (rule clamp_hours_cases)
next
  assume h: "list_all finite_hours (credits st)"
  have "length (credits st) = length ds" using assms(2) by (rule list_all2_lengthD)
  then have "map fst (zip (credits st) ds) = credits st" by simp
  with h have "list_all finite_hours (map fst (zip (credits st) ds))" by simp
  then have "credit_sum (zip (credits st) ds) t = Fin (credit_total (zip (credits st) ds) t)"
    by (rule credit_sum_total)
  then show "creditHoursUpTo st target
      = Inr (Fin (sum_list (map (\<lambda>(c, d). credit_worth (credit_hours c))
          (filter (\<lambda>(c, d). d \<le> t) (zip (credits st) ds)))))"
    using creditHoursUpTo_days [OF assms] by (simp only: credit_total_def)
qed

definition ten_hour_credit :: state where
  "ten_hour_credit =
     DEFAULTS \<lparr> credits :=
       [\<lparr> credit_date = JStr ''2026-01-10'', credit_hours = JNum (Fin 10),
          credit_note = JStr '''' \<rparr>] \<rparr>"

theorem creditHoursUpTo_sum_witness:
  "calendar_day (JStr ''2026-01-09'') 20462 \<and> calendar_day (JStr ''2026-01-10'') 20463
   \<and> list_all2 credit_day (credits ten_hour_credit) [20463]
   \<and> list_all finite_hours (credits ten_hour_credit)
   \<and> creditHoursUpTo ten_hour_credit (JStr ''2026-01-09'') = Inr (Fin 0)
   \<and> creditHoursUpTo ten_hour_credit (JStr ''2026-01-10'') = Inr (Fin 10)"
proof -
  have a: "calendar_day (JStr ''2026-01-09'') 20462" by code_simp
  have b: "calendar_day (JStr ''2026-01-10'') 20463" by code_simp
  have c: "list_all2 credit_day (credits ten_hour_credit) [20463]" by code_simp
  have f: "list_all finite_hours (credits ten_hour_credit)" by code_simp
  have z: "zip (credits ten_hour_credit) [20463]
      = [(\<lparr> credit_date = JStr ''2026-01-10'', credit_hours = JNum (Fin 10),
            credit_note = JStr '''' \<rparr>, 20463)]"
    by (simp add: ten_hour_credit_def)
  have w: "credit_worth (JNum (Fin 10)) = 10" by (simp add: credit_worth_def)
  have "creditHoursUpTo ten_hour_credit (JStr ''2026-01-09'')
      = Inr (Fin (sum_list (map (\<lambda>(c, d). credit_worth (credit_hours c))
          (filter (\<lambda>(c, d). d \<le> (20462::int)) (zip (credits ten_hour_credit) [20463])))))"
    using creditHoursUpTo_sum [OF a c] f by blast
  then have x: "creditHoursUpTo ten_hour_credit (JStr ''2026-01-09'') = Inr (Fin 0)"
    by (simp add: z)
  have "creditHoursUpTo ten_hour_credit (JStr ''2026-01-10'')
      = Inr (Fin (sum_list (map (\<lambda>(c, d). credit_worth (credit_hours c))
          (filter (\<lambda>(c, d). d \<le> (20463::int)) (zip (credits ten_hour_credit) [20463])))))"
    using creditHoursUpTo_sum [OF b c] f by blast
  then have y: "creditHoursUpTo ten_hour_credit (JStr ''2026-01-10'') = Inr (Fin 10)"
    by (simp add: z w)
  show ?thesis by (intro conjI a b c f x y)
qed

text \<open>
  Claim C8, as the code has it. For every state whose \<open>payFrequencyDays\<close> is missing,
  not a number or zero (every value that \<open>Number(x) || 14\<close> replaces), and every target,
  \<open>getBalanceOn\<close> computes what it computes with a period of 14; and for a state with
  dates of the years 100 to 9999 and finite settings and a target date of those years
  it does not fail: it returns the balance formula with the period 14.
\<close>

theorem getBalanceOn_period_fallback:
  assumes "\<not> num_truthy (ToNumber (payFrequencyDays st))"
  shows "getBalanceOn st target = getBalanceOn (st \<lparr> payFrequencyDays := JNum (Fin 14) \<rparr>) target
    \<and> (calendar_day target t \<and> well_formed st f rds cds
        \<and> js_or (ToNumber (startBalance st)) (Fin 0) = Fin sb
        \<and> js_or (ToNumber (accrualPerPeriod st)) (Fin 0) = Fin a
       \<longrightarrow> getBalanceOn st target = Inr (Fin (balance_formula st sb a 14 f rds cds t)))"
proof (intro conjI impI)
  show "getBalanceOn st target
      = getBalanceOn (st \<lparr> payFrequencyDays := JNum (Fin 14) \<rparr>) target"
  proof -
    have j: "js_or (ToNumber (payFrequencyDays st)) (Fin 14) = Fin 14"
      using assms by (simp add: js_or_def)
    have k: "js_or (Fin 14) (Fin 14) = Fin 14"
      by (simp add: js_or_def)
    show ?thesis
      by (simp add: getBalanceOn_def ptoHoursUpTo_def creditHoursUpTo_def j k)
  qed
next
  assume h: "calendar_day target t \<and> well_formed st f rds cds
        \<and> js_or (ToNumber (startBalance st)) (Fin 0) = Fin sb
        \<and> js_or (ToNumber (accrualPerPeriod st)) (Fin 0) = Fin a"
  have "js_or (ToNumber (payFrequencyDays st)) (Fin 14) = Fin 14"
    using assms by (simp add: js_or_def)
  with h have "config_numbers st sb a 14" by (simp add: config_numbers_def)
  with h show "getBalanceOn st target = Inr (Fin (balance_formula st sb a 14 f rds cds t))"
    by (intro getBalanceOn_formula) simp_all
qed

theorem getBalanceOn_period_fallback_witness:
  "\<not> num_truthy (ToNumber (payFrequencyDays (DEFAULTS \<lparr> payFrequencyDays := JUndefined \<rparr>)))
   \<and> getBalanceOn (DEFAULTS \<lparr> payFrequencyDays := JUndefined \<rparr>) (JStr ''2026-01-22'')
     = getBalanceOn (DEFAULTS \<lparr> payFrequencyDays := JUndefined, payFrequencyDays := JNum (Fin 14) \<rparr>)
         (JStr ''2026-01-22'')
   \<and> getBalanceOn (DEFAULTS \<lparr> payFrequencyDays := JUndefined \<rparr>) (JStr ''2026-01-22'')
     = Inr (Fin (- 6.56))"
proof -
  have a: "\<not> num_truthy (ToNumber (payFrequencyDays (DEFAULTS \<lparr> payFrequencyDays := JUndefined \<rparr>)))"
    by (simp add: num_truthy_def)
  have b: "getBalanceOn (DEFAULTS \<lparr> payFrequencyDays := JNum (Fin 14) \<rparr>) (JStr ''2026-01-22'')
      = Inr (Fin (- 6.56))"
    by code_simp
  have c: "getBalanceOn (DEFAULTS \<lparr> payFrequencyDays := JUndefined \<rparr>) (JStr ''2026-01-22'')
     = getBalanceOn (DEFAULTS \<lparr> payFrequencyDays := JUndefined, payFrequencyDays := JNum (Fin 14) \<rparr>)
         (JStr ''2026-01-22'')"
    by (rule getBalanceOn_period_fallback [OF a, THEN conjunct1])
  moreover have "DEFAULTS \<lparr> payFrequencyDays := JUndefined, payFrequencyDays := JNum (Fin 14) \<rparr>
      = DEFAULTS \<lparr> payFrequencyDays := JNum (Fin 14) \<rparr>" by simp
  ultimately have "getBalanceOn (DEFAULTS \<lparr> payFrequencyDays := JUndefined \<rparr>) (JStr ''2026-01-22'')
     = Inr (Fin (- 6.56))" using b by simp
  with a c show ?thesis by blast
qed

text \<open>
  The claim as stated fails for a negative period: \<open>Number(x) || 14\<close> keeps it, and
  with a period of -7 the balance on 2026-01-22 is -20.39, not the -6.56 of the
  period 14.
\<close>

theorem getBalanceOn_negative_period_counterexample:
  "getBalanceOn (DEFAULTS \<lparr> payFrequencyDays := JNum (Fin (- 7)) \<rparr>) (JStr ''2026-01-22'')
     = Inr (Fin (- 20.39))
   \<and> getBalanceOn (DEFAULTS \<lparr> payFrequencyDays := JNum (Fin 14) \<rparr>) (JStr ''2026-01-22'')
     = Inr (Fin (- 6.56))
   \<and> getBalanceOn (DEFAULTS \<lparr> payFrequencyDays := JNum (Fin (- 7)) \<rparr>) (JStr ''2026-01-22'')
     \<noteq> getBalanceOn (DEFAULTS \<lparr> payFrequencyDays := JNum (Fin 14) \<rparr>) (JStr ''2026-01-22'')"
  by code_simp

text \<open>
  Claim C10. For every ledger of leave ranges whose ends carry dates of the years 100 to
  9999, in either order, and every target date of those years, the deduction that
  \<open>ptoHoursUpTo\<close> returns is eight times a natural number. A Monday-to-Friday range and
  an inverted range together give 40 hours.
\<close>

theorem ptoHoursUpTo_multiple_of_8:
  assumes "calendar_day target t" and "list_all2 range_days (ptoRanges st) ds"
  shows "\<exists>k::nat. ptoHoursUpTo st target = Inr (Fin (8 * of_nat k))"
proof -
  obtain k :: nat where "leave_hours ds t = 8 * int k"
    using leave_hours_multiple by blast
  then have "ptoHoursUpTo st target = Inr (Fin (8 * of_nat k))"
    using ptoHoursUpTo_days [OF assms] by simp
  then show ?thesis by blast
qed

definition two_ranges :: state where
  "two_ranges =
     DEFAULTS \<lparr> ptoRanges :=
       [\<lparr> range_from = JStr ''2026-01-05'', range_to = JStr ''2026-01-09'',
          range_hours = JNum (Fin 40), range_note = JStr '''' \<rparr>,
        \<lparr> range_from = JStr ''2026-01-16'', range_to = JStr ''2026-01-12'',
          range_hours = JNum (Fin 0), range_note = JStr '''' \<rparr>] \<rparr>"

theorem ptoHoursUpTo_multiple_of_8_witness:
  "calendar_day (JStr ''2026-01-20'') 20473
   \<and> list_all2 range_days (ptoRanges two_ranges) [(20458, 20462), (20469, 20465)]
   \<and> (\<exists>k::nat. ptoHoursUpTo two_ranges (JStr ''2026-01-20'') = Inr (Fin (8 * of_nat k)))
   \<and> ptoHoursUpTo two_ranges (JStr ''2026-01-20'') = Inr (Fin 40)"
proof -
  have a: "calendar_day (JStr ''2026-01-20'') 20473" by code_simp
  have b: "list_all2 range_days (ptoRanges two_ranges) [(20458, 20462), (20469, 20465)]"
    by code_simp
  have c: "ptoHoursUpTo two_ranges (JStr ''2026-01-20'') = Inr (Fin 40)" by code_simp
  from ptoHoursUpTo_multiple_of_8 [OF a b] a b c show ?thesis by blast
qed

text \<open>
  Claim C3. For every first payday and target date (values that \<open>toDateOnlyUTC\<close> reads
  as days \<open>f\<close> and \<open>t\<close> of the years 100 to 9999) and every period of a positive whole
  number \<open>p\<close> of days, \<open>countPaydays\<close> returns 0 when the target is before the first
  payday, and otherwise the floor of \<open>daysBetween\<close> over the period, plus 1, where
  \<open>daysBetween\<close> is the difference of the day numbers: that is \<open>(t - f) div p + 1\<close>.
  Counted up to the first payday itself it returns 1.
\<close>

theorem countPaydays_formula:
  assumes "calendar_day x f" and "calendar_day y t" and "0 < p"
  shows "daysBetween x y = Inr (Fin (of_int (t - f)))
    \<and> countPaydays x y (Fin (of_int p))
        = (if t < f then Inr (Fin 0)
           else ebind (daysBetween x y)
                  (\<lambda>d. Inr (js_add (Math_floor (js_div d (Fin (of_int p)))) (Fin 1))))
    \<and> countPaydays x y (Fin (of_int p))
        = Inr (Fin (of_int (if t < f then 0 else (t - f) div p + 1)))
    \<and> countPaydays x x (Fin (of_int p)) = Inr (Fin 1)"
proof -
  have p: "p \<noteq> 0" using assms(3) by simp
  have d: "daysBetween x y = Inr (Fin (of_int (t - f)))"
    by (rule daysBetween_calendar [OF assms(1,2)])
  have c: "countPaydays x y (Fin (of_int p))
      = Inr (Fin (of_int (if t < f then 0 else (t - f) div p + 1)))"
    by (rule countPaydays_whole [OF assms(1,2) p])
  have s: "countPaydays x x (Fin (of_int p)) = Inr (Fin 1)"
    using countPaydays_whole [OF assms(1,1) p] by simp
  have e: "countPaydays x y (Fin (of_int p))
        = (if t < f then Inr (Fin 0)
           else ebind (daysBetween x y)
                  (\<lambda>d. Inr (js_add (Math_floor (js_div d (Fin (of_int p)))) (Fin 1))))"
  proof (cases "t < f")
    case True
    then show ?thesis by (simp add: c)
  next
    case False
    then show ?thesis
      by (simp only: c d ebind.simps floor_quotient_plus_one [OF p] if_False)
  qed
  show ?thesis by (intro conjI d e c s)
qed

theorem countPaydays_formula_witness:
  "calendar_day (JStr ''2026-01-08'') 20461 \<and> calendar_day (JStr ''2026-02-10'') 20494
   \<and> (0::int) < 14
   \<and> daysBetween (JStr ''2026-01-08'') (JStr ''2026-02-10'') = Inr (Fin 33)
   \<and> countPaydays (JStr ''2026-01-08'') (JStr ''2026-02-10'') (Fin 14) = Inr (Fin 3)
   \<and> countPaydays (JStr ''2026-01-08'') (JStr ''2026-01-08'') (Fin 14) = Inr (Fin 1)"
proof -
  have a: "calendar_day (JStr ''2026-01-08'') 20461" by code_simp
  have b: "calendar_day (JStr ''2026-02-10'') 20494" by code_simp
  have c: "(0::int) < 14" by simp
  note inst = countPaydays_formula [OF a b c]
  have d: "daysBetween (JStr ''2026-01-08'') (JStr ''2026-02-10'') = Inr (Fin 33)"
    using inst [THEN conjunct1] by simp
  have e: "countPaydays (JStr ''2026-01-08'') (JStr ''2026-02-10'') (Fin 14) = Inr (Fin 3)"
    using inst [THEN conjunct2, THEN conjunct2, THEN conjunct1] by simp
  have g: "countPaydays (JStr ''2026-01-08'') (JStr ''2026-01-08'') (Fin 14) = Inr (Fin 1)"
    using inst [THEN conjunct2, THEN conjunct2, THEN conjunct2] by simp
  show ?thesis by (intro conjI a b c d e g)
qed

text \<open>
  Claim C1. For every state whose first payday, leave ranges and credits carry dates of
  the years 100 to 9999 and whose period is a whole number \<open>p\<close> of days, and every target
  date \<open>t\<close> of those years, \<open>getBalanceOn\<close> returns the start balance, plus (when the
  target is on or after the first payday \<open>f\<close>, and nothing otherwise) the count of
  paydays \<open>(t - f) div p + 1\<close> of \<open>countPaydays\<close> times the accrual, minus the leave hours
  of \<open>ptoHoursUpTo\<close>, plus the credit hours of \<open>creditHoursUpTo\<close>, with the additions and
  the multiplication in this order. With the default settings and empty ledgers
  (Scenario A) the balance on 2026-01-05 is -15.78.
\<close>

theorem getBalanceOn_balance_formula:
  assumes "calendar_day target t" and "calendar_day (firstPayday st) f"
    and "list_all2 range_days (ptoRanges st) rds" and "list_all2 credit_day (credits st) cds"
    and "js_or (ToNumber (payFrequencyDays st)) (Fin 14) = Fin (of_int p)"
  shows "getBalanceOn st target
      = Inr (js_add (js_sub
          (if f \<le> t
           then js_add (js_or (ToNumber (startBalance st)) (Fin 0))
                  (js_mul (Fin (of_int ((t - f) div p + 1)))
                     (js_or (ToNumber (accrualPerPeriod st)) (Fin 0)))
           else js_or (ToNumber (startBalance st)) (Fin 0))
          (Fin (of_int (leave_hours rds t))))
          (credit_sum (zip (credits st) cds) t))
    \<and> countPaydays (firstPayday st) target (Fin (of_int p))
      = Inr (Fin (of_int (if t < f then 0 else (t - f) div p + 1)))
    \<and> ptoHoursUpTo st target = Inr (Fin (of_int (leave_hours rds t)))
    \<and> creditHoursUpTo st target = Inr (credit_sum (zip (credits st) cds) t)
    \<and> getBalanceOn DEFAULTS (JStr ''2026-01-05'') = Inr (Fin (- 15.78))"
proof -
  have p: "p \<noteq> 0"
    using assms(5) js_or_14_nonzero [of "ToNumber (payFrequencyDays st)" "of_int p"] by simp
  have c: "countPaydays (firstPayday st) target (Fin (of_int p))
      = Inr (Fin (of_int (if t < f then 0 else (t - f) div p + 1)))"
    by (rule countPaydays_whole [OF assms(2,1) p])
  have n: "countPaydays (firstPayday st) target (js_or (ToNumber (payFrequencyDays st)) (Fin 14))
      = Inr (Fin (of_int (if t < f then 0 else (t - f) div p + 1)))"
    by (simp only: assms(5) c)
  have 1: "getBalanceOn st target
      = Inr (js_add (js_sub
          (if f \<le> t
           then js_add (js_or (ToNumber (startBalance st)) (Fin 0))
                  (js_mul (Fin (of_int ((t - f) div p + 1)))
                     (js_or (ToNumber (accrualPerPeriod st)) (Fin 0)))
           else js_or (ToNumber (startBalance st)) (Fin 0))
          (Fin (of_int (leave_hours rds t))))
          (credit_sum (zip (credits st) cds) t))"
  proof (cases "f \<le> t")
    case True
    then have "\<not> t < f" by simp
    with getBalanceOn_steps [OF assms(1,2,3,4) n] True show ?thesis by (simp only: if_True if_False)
  next
    case False
    with getBalanceOn_steps [OF assms(1,2,3,4) n] show ?thesis by (simp only: if_False)
  qed
  have 3: "ptoHoursUpTo st target = Inr (Fin (of_int (leave_hours rds t)))"
    by (rule ptoHoursUpTo_days [OF assms(1,3)])
  have 4: "creditHoursUpTo st target = Inr (credit_sum (zip (credits st) cds) t)"
    by (rule creditHoursUpTo_days [OF assms(1,4)])
  have 5: "getBalanceOn DEFAULTS (JStr ''2026-01-05'') = Inr (Fin (- 15.78))" by code_simp
  show ?thesis by (intro conjI 1 c 3 4 5)
qed

definition accrual_leave_credit :: state where
  "accrual_leave_credit =
     \<lparr> startDate = JStr ''2026-01-01'',
       startBalance = JNum (Fin 10),
       accrualPerPeriod = JNum (Fin 4.5),
       firstPayday = JStr ''2026-01-08'',
       payFrequencyDays = JNum (Fin 14),
       pto = [],
       ptoRanges =
         [\<lparr> range_from = JStr ''2026-01-05'', range_to = JStr ''2026-01-09'',
            range_hours = JNum (Fin 40), range_note = JStr '''' \<rparr>],
       credits =
         [\<lparr> credit_date = JStr ''2026-01-10'', credit_hours = JNum (Fin 10),
            credit_note = JStr '''' \<rparr>] \<rparr>"

theorem getBalanceOn_balance_formula_witness:
  "calendar_day (JStr ''2026-01-22'') 20475
   \<and> calendar_day (firstPayday accrual_leave_credit) 20461
   \<and> list_all2 range_days (ptoRanges accrual_leave_credit) [(20458, 20462)]
   \<and> list_all2 credit_day (credits accrual_leave_credit) [20463]
   \<and> js_or (ToNumber (payFrequencyDays accrual_leave_credit)) (Fin 14) = Fin (of_int 14)
   \<and> countPaydays (firstPayday accrual_leave_credit) (JStr ''2026-01-22'') (Fin 14) = Inr (Fin 2)
   \<and> ptoHoursUpTo accrual_leave_credit (JStr ''2026-01-22'') = Inr (Fin 40)
   \<and> creditHoursUpTo accrual_leave_credit (JStr ''2026-01-22'') = Inr (Fin 10)
   \<and> getBalanceOn accrual_leave_credit (JStr ''2026-01-22'') = Inr (Fin (- 11))"
proof -
  have a: "calendar_day (JStr ''2026-01-22'') 20475" by code_simp
  have b: "calendar_day (firstPayday accrual_leave_credit) 20461" by code_simp
  have c: "list_all2 range_days (ptoRanges accrual_leave_credit) [(20458, 20462)]" by code_simp
  have d: "list_all2 credit_day (credits accrual_leave_credit) [20463]" by code_simp
  have e: "js_or (ToNumber (payFrequencyDays accrual_leave_credit)) (Fin 14) = Fin (of_int 14)"
    by (simp add: accrual_leave_credit_def js_or_def num_truthy_def)
  note inst = getBalanceOn_balance_formula [OF a b c d e]
  have l: "leave_hours [(20458, 20462)] 20475 = 40" by code_simp
  have s: "credit_sum (zip (credits accrual_leave_credit) [20463]) 20475 = Fin 10" by code_simp
  have n: "countPaydays (firstPayday accrual_leave_credit) (JStr ''2026-01-22'') (Fin 14)
      = Inr (Fin 2)"
    using inst [THEN conjunct2, THEN conjunct1] by simp
  have h: "ptoHoursUpTo accrual_leave_credit (JStr ''2026-01-22'') = Inr (Fin 40)"
    using inst [THEN conjunct2, THEN conjunct2, THEN conjunct1] by (simp only: l of_int_numeral)
  have k: "creditHoursUpTo accrual_leave_credit (JStr ''2026-01-22'') = Inr (Fin 10)"
    using inst [THEN conjunct2, THEN conjunct2, THEN conjunct2, THEN conjunct1] by (simp only: s)
  have v: "getBalanceOn accrual_leave_credit (JStr ''2026-01-22'') = Inr (Fin (- 11))"
    using inst [THEN conjunct1] unfolding l s
    by (simp add: accrual_leave_credit_def js_or_def num_truthy_def js_sub_def)
  show ?thesis by (intro conjI a b c d e n h k v)
qed

text \<open>
  Claim C2. For every state whose dates are of the years 100 to 9999 and every target
  date \<open>t\<close> of those years, the leave hours that \<open>getBalanceOn\<close> deducts are, summed over
  the leave ranges \<open>(a, b)\<close> with \<open>a \<le> t\<close>, eight times the number of weekdays among
  the days \<open>a\<close>, ..., \<open>min b t\<close>: a range still in progress at the target counts up to
  and including the target only. The revision with holiday logic adds up the same
  products over the business days (weekdays that are not holidays of the years around
  the start date and the target), on top of the hours of its single-day entries; with
  no such entries its deduction is that sum. Here \<open>n\<close> is the count of paydays that
  \<open>countPaydays\<close> returns.
\<close>

theorem ptoHoursUpTo_capped_ranges:
  assumes "calendar_day target t" and "calendar_day (firstPayday st) f"
    and "calendar_day (startDate st) s"
    and "list_all2 range_days (ptoRanges st) rds" and "list_all2 credit_day (credits st) cds"
    and "list_all2 entry_day (pto st) pds"
    and "countPaydays (firstPayday st) target (js_or (ToNumber (payFrequencyDays st)) (Fin 14))
      = Inr n"
  shows "ptoHoursUpTo st target
      = Inr (Fin (of_int (sum_list (map (\<lambda>(a, b). 8 * weekdays_in a (min b t))
          (filter (\<lambda>(a, b). a \<le> t) rds)))))
    \<and> getBalanceOn st target
      = Inr (js_add (js_sub
          (if f \<le> t
           then js_add (js_or (ToNumber (startBalance st)) (Fin 0))
                  (js_mul n (js_or (ToNumber (accrualPerPeriod st)) (Fin 0)))
           else js_or (ToNumber (startBalance st)) (Fin 0))
          (Fin (of_int (sum_list (map (\<lambda>(a, b). 8 * weekdays_in a (min b t))
            (filter (\<lambda>(a, b). a \<le> t) rds))))))
          (credit_sum (zip (credits st) cds) t))
    \<and> totalPtoHoursUpTo st target
      = Inr (foldl js_add (entry_sum (holidays_for s t) (zip (pto st) pds) t)
          (map (\<lambda>(a, b). Fin (of_int (8 * business_days_in (holidays_for s t) a (min b t))))
            (filter (\<lambda>(a, b). a \<le> t) rds)))
    \<and> (pto st = [] \<longrightarrow>
         totalPtoHoursUpTo st target
           = Inr (Fin (of_int (sum_list
               (map (\<lambda>(a, b). 8 * business_days_in (holidays_for s t) a (min b t))
                 (filter (\<lambda>(a, b). a \<le> t) rds))))))
    \<and> getBalanceOn_holidays st target
      = Inr (js_add (js_sub
          (if f \<le> t
           then js_add (js_or (ToNumber (startBalance st)) (Fin 0))
                  (js_mul n (js_or (ToNumber (accrualPerPeriod st)) (Fin 0)))
           else js_or (ToNumber (startBalance st)) (Fin 0))
          (foldl js_add (entry_sum (holidays_for s t) (zip (pto st) pds) t)
            (map (\<lambda>(a, b). Fin (of_int (8 * business_days_in (holidays_for s t) a (min b t))))
              (filter (\<lambda>(a, b). a \<le> t) rds))))
          (credit_sum (zip (credits st) cds) t))"
proof -
  have r1: "ptoHoursUpTo st target
      = Inr (Fin (of_int (sum_list (map (\<lambda>(a, b). 8 * weekdays_in a (min b t))
          (filter (\<lambda>(a, b). a \<le> t) rds)))))"
    using ptoHoursUpTo_days [OF assms(1,4)] by (simp only: leave_hours_def)
  have r2: "getBalanceOn st target
      = Inr (js_add (js_sub
          (if f \<le> t
           then js_add (js_or (ToNumber (startBalance st)) (Fin 0))
                  (js_mul n (js_or (ToNumber (accrualPerPeriod st)) (Fin 0)))
           else js_or (ToNumber (startBalance st)) (Fin 0))
          (Fin (of_int (sum_list (map (\<lambda>(a, b). 8 * weekdays_in a (min b t))
            (filter (\<lambda>(a, b). a \<le> t) rds))))))
          (credit_sum (zip (credits st) cds) t))"
    using getBalanceOn_steps [OF assms(1,2,4,5,7)] by (simp only: leave_hours_def)
  have r3: "totalPtoHoursUpTo st target
      = Inr (foldl js_add (entry_sum (holidays_for s t) (zip (pto st) pds) t)
          (map (\<lambda>(a, b). Fin (of_int (8 * business_days_in (holidays_for s t) a (min b t))))
            (filter (\<lambda>(a, b). a \<le> t) rds)))"
    by (rule totalPtoHoursUpTo_fold [OF assms(1,3,4,6)])
  have r4: "totalPtoHoursUpTo st target
           = Inr (Fin (of_int (sum_list
               (map (\<lambda>(a, b). 8 * business_days_in (holidays_for s t) a (min b t))
                 (filter (\<lambda>(a, b). a \<le> t) rds)))))" if "pto st = []"
  proof -
    have "entry_sum (holidays_for s t) (zip (pto st) pds) t = Fin 0"
      using that by (simp add: entry_sum_def)
    then show ?thesis
      using foldl_js_add_whole [of 0 "\<lambda>a b. 8 * business_days_in (holidays_for s t) a (min b t)"
          "filter (\<lambda>(a, b). a \<le> t) rds"]
      by (simp only: r3 add_0)
  qed
  have r5: "getBalanceOn_holidays st target
      = Inr (js_add (js_sub
          (if f \<le> t
           then js_add (js_or (ToNumber (startBalance st)) (Fin 0))
                  (js_mul n (js_or (ToNumber (accrualPerPeriod st)) (Fin 0)))
           else js_or (ToNumber (startBalance st)) (Fin 0))
          (foldl js_add (entry_sum (holidays_for s t) (zip (pto st) pds) t)
            (map (\<lambda>(a, b). Fin (of_int (8 * business_days_in (holidays_for s t) a (min b t))))
              (filter (\<lambda>(a, b). a \<le> t) rds))))
          (credit_sum (zip (credits st) cds) t))"
    by (rule getBalanceOn_holidays_steps [OF assms])
  from r4 have r4i: "pto st = [] \<longrightarrow>
         totalPtoHoursUpTo st target
           = Inr (Fin (of_int (sum_list
               (map (\<lambda>(a, b). 8 * business_days_in (holidays_for s t) a (min b t))
                 (filter (\<lambda>(a, b). a \<le> t) rds)))))"
    by (rule impI)
  show ?thesis by (intro conjI r1 r2 r3 r4i r5)
qed

definition range_in_progress :: state where
  "range_in_progress =
     DEFAULTS \<lparr> ptoRanges :=
       [\<lparr> range_from = JStr ''2026-01-15'', range_to = JStr ''2026-01-21'',
          range_hours = JNum (Fin 40), range_note = JStr '''' \<rparr>] \<rparr>"

theorem ptoHoursUpTo_capped_ranges_witness:
  "calendar_day (JStr ''2026-01-20'') 20473
   \<and> calendar_day (firstPayday range_in_progress) 20461
   \<and> calendar_day (startDate range_in_progress) 20454
   \<and> list_all2 range_days (ptoRanges range_in_progress) [(20468, 20474)]
   \<and> list_all2 credit_day (credits range_in_progress) []
   \<and> list_all2 entry_day (pto range_in_progress) []
   \<and> countPaydays (firstPayday range_in_progress) (JStr ''2026-01-20'')
        (js_or (ToNumber (payFrequencyDays range_in_progress)) (Fin 14)) = Inr (Fin 1)
   \<and> pto range_in_progress = []
   \<and> ptoHoursUpTo range_in_progress (JStr ''2026-01-20'') = Inr (Fin 32)
   \<and> totalPtoHoursUpTo range_in_progress (JStr ''2026-01-20'') = Inr (Fin 24)"
proof -
  have a: "calendar_day (JStr ''2026-01-20'') 20473" by code_simp
  have b: "calendar_day (firstPayday range_in_progress) 20461" by code_simp
  have c: "calendar_day (startDate range_in_progress) 20454" by code_simp
  have d: "list_all2 range_days (ptoRanges range_in_progress) [(20468, 20474)]" by code_simp
  have e: "list_all2 credit_day (credits range_in_progress) []" by code_simp
  have g: "list_all2 entry_day (pto range_in_progress) []" by code_simp
  have k: "countPaydays (firstPayday range_in_progress) (JStr ''2026-01-20'')
        (js_or (ToNumber (payFrequencyDays range_in_progress)) (Fin 14)) = Inr (Fin 1)"
    by code_simp
  have z: "pto range_in_progress = []" by code_simp
  have w: "sum_list (map (\<lambda>(a, b). 8 * weekdays_in a (min b 20473))
      (filter (\<lambda>(a, b). a \<le> 20473) [(20468, 20474)])) = 32"
    by code_simp
  have h: "sum_list (map (\<lambda>(a, b). 8 * business_days_in (holidays_for 20454 20473) a (min b 20473))
      (filter (\<lambda>(a, b). a \<le> 20473) [(20468, 20474)])) = 24"
    by code_simp
  note inst = ptoHoursUpTo_capped_ranges [OF a b c d e g k]
  have x: "ptoHoursUpTo range_in_progress (JStr ''2026-01-20'') = Inr (Fin 32)"
    using inst [THEN conjunct1] by (simp only: w of_int_numeral)
  have "totalPtoHoursUpTo range_in_progress (JStr ''2026-01-20'')
      = Inr (Fin (of_int (sum_list
          (map (\<lambda>(a, b). 8 * business_days_in (holidays_for 20454 20473) a (min b 20473))
            (filter (\<lambda>(a, b). a \<le> 20473) [(20468, 20474)])))))"
    using inst [THEN conjunct2, THEN conjunct2, THEN conjunct2, THEN conjunct1] z by blast
  then have y: "totalPtoHoursUpTo range_in_progress (JStr ''2026-01-20'') = Inr (Fin 24)"
    by (simp only: h of_int_numeral)
  show ?thesis by (intro conjI a b c d e g k z x y)
qed

text \<open>
  Claim C5. For every pair of dates of the years 100 to 9999 with the second before the
  first, \<open>weekdaysBetweenInclusive\<close> and \<open>businessDaysBetweenInclusive\<close> (with any set of
  holidays) return 0 and raise no error; and a leave range with these two dates as its
  ends contributes nothing to any balance query for a target date of those years: with
  the range anywhere in the ledger, the leave hours and the balance are what they are
  without it, in both revisions.
\<close>

theorem inverted_range_counts_zero:
  assumes "calendar_day x a" and "calendar_day y b" and "b < a" and "calendar_day target t"
  shows "weekdaysBetweenInclusive x y = Inr (Fin 0)
    \<and> businessDaysBetweenInclusive x y H = Inr (Fin 0)
    \<and> ptoHoursUpTo
        (st \<lparr> ptoRanges := xs @ \<lparr> range_from = x, range_to = y, range_hours = h, range_note = nt \<rparr> # ys \<rparr>)
        target
      = ptoHoursUpTo (st \<lparr> ptoRanges := xs @ ys \<rparr>) target
    \<and> getBalanceOn
        (st \<lparr> ptoRanges := xs @ \<lparr> range_from = x, range_to = y, range_hours = h, range_note = nt \<rparr> # ys \<rparr>)
        target
      = getBalanceOn (st \<lparr> ptoRanges := xs @ ys \<rparr>) target
    \<and> totalPtoHoursUpTo
        (st \<lparr> ptoRanges := xs @ \<lparr> range_from = x, range_to = y, range_hours = h, range_note = nt \<rparr> # ys \<rparr>)
        target
      = totalPtoHoursUpTo (st \<lparr> ptoRanges := xs @ ys \<rparr>) target
    \<and> getBalanceOn_holidays
        (st \<lparr> ptoRanges := xs @ \<lparr> range_from = x, range_to = y, range_hours = h, range_note = nt \<rparr> # ys \<rparr>)
        target
      = getBalanceOn_holidays (st \<lparr> ptoRanges := xs @ ys \<rparr>) target"
proof -
  have r: "range_days \<lparr> range_from = x, range_to = y, range_hours = h, range_note = nt \<rparr> (a, b)"
    using assms(1,2) by (simp add: range_days_def)
  have r1: "weekdaysBetweenInclusive x y = Inr (Fin 0)"
    using weekdaysBetweenInclusive_calendar [OF assms(1,2)] assms(3) by simp
  have r2: "businessDaysBetweenInclusive x y H = Inr (Fin 0)"
    using businessDaysBetweenInclusive_calendar [OF assms(1,2)] assms(3) by simp
  show ?thesis
    by (intro conjI r1 r2 ptoHoursUpTo_inverted [OF assms(4) r assms(3)]
        getBalanceOn_inverted [OF assms(4) r assms(3)]
        totalPtoHoursUpTo_inverted [OF assms(4) r assms(3)]
        getBalanceOn_holidays_inverted [OF assms(4) r assms(3)])
qed

theorem inverted_range_counts_zero_witness:
  "calendar_day (JStr ''2026-01-16'') 20469 \<and> calendar_day (JStr ''2026-01-12'') 20465
   \<and> (20465::int) < 20469 \<and> calendar_day (JStr ''2026-01-20'') 20473
   \<and> weekdaysBetweenInclusive (JStr ''2026-01-16'') (JStr ''2026-01-12'') = Inr (Fin 0)
   \<and> businessDaysBetweenInclusive (JStr ''2026-01-16'') (JStr ''2026-01-12'') {} = Inr (Fin 0)
   \<and> ptoHoursUpTo
       (DEFAULTS \<lparr> ptoRanges := [] @ \<lparr> range_from = JStr ''2026-01-16'', range_to = JStr ''2026-01-12'',
          range_hours = JNum (Fin 0), range_note = JStr '''' \<rparr> # [] \<rparr>) (JStr ''2026-01-20'')
     = ptoHoursUpTo (DEFAULTS \<lparr> ptoRanges := [] @ [] \<rparr>) (JStr ''2026-01-20'')
   \<and> getBalanceOn
       (DEFAULTS \<lparr> ptoRanges := [] @ \<lparr> range_from = JStr ''2026-01-16'', range_to = JStr ''2026-01-12'',
          range_hours = JNum (Fin 0), range_note = JStr '''' \<rparr> # [] \<rparr>) (JStr ''2026-01-20'')
     = getBalanceOn (DEFAULTS \<lparr> ptoRanges := [] @ [] \<rparr>) (JStr ''2026-01-20'')
   \<and> getBalanceOn_holidays
       (DEFAULTS \<lparr> ptoRanges := [] @ \<lparr> range_from = JStr ''2026-01-16'', range_to = JStr ''2026-01-12'',
          range_hours = JNum (Fin 0), range_note = JStr '''' \<rparr> # [] \<rparr>) (JStr ''2026-01-20'')
     = getBalanceOn_holidays (DEFAULTS \<lparr> ptoRanges := [] @ [] \<rparr>) (JStr ''2026-01-20'')
   \<and> ptoHoursUpTo
       (DEFAULTS \<lparr> ptoRanges := [\<lparr> range_from = JStr ''2026-01-16'', range_to = JStr ''2026-01-12'',
          range_hours = JNum (Fin 0), range_note = JStr '''' \<rparr>] \<rparr>) (JStr ''2026-01-20'')
     = Inr (Fin 0)"
proof -
  have a: "calendar_day (JStr ''2026-01-16'') 20469" by code_simp
  have b: "calendar_day (JStr ''2026-01-12'') 20465" by code_simp
  have c: "(20465::int) < 20469" by simp
  have d: "calendar_day (JStr ''2026-01-20'') 20473" by code_simp
  have e: "ptoHoursUpTo
       (DEFAULTS \<lparr> ptoRanges := [\<lparr> range_from = JStr ''2026-01-16'', range_to = JStr ''2026-01-12'',
          range_hours = JNum (Fin 0), range_note = JStr '''' \<rparr>] \<rparr>) (JStr ''2026-01-20'')
     = Inr (Fin 0)"
    by code_simp
  note inst = inverted_range_counts_zero [OF a b c d]
  show ?thesis
    by (intro conjI a b c d e inst [THEN conjunct1] inst [THEN conjunct2, THEN conjunct1]
        inst [THEN conjunct2, THEN conjunct2, THEN conjunct1]
        inst [THEN conjunct2, THEN conjunct2, THEN conjunct2, THEN conjunct1]
        inst [THEN conjunct2, THEN conjunct2, THEN conjunct2, THEN conjunct2, THEN conjunct2])
qed

text \<open>
  Claim C7. For every start date and every whole day count \<open>n \<ge> 0\<close> such that the days
  from the start to \<open>n\<close> days later are of the years 100 to 9999, and every state with
  dates of those years, \<open>forecastSeries\<close> and \<open>generateForecastSeries\<close> return a series of
  length \<open>n + 1\<close>; its \<open>i\<close>-th entry carries the date \<open>addDays(startDate, i)\<close>, the start
  moved by \<open>i\<close> whole days (weekends and holidays included), and the balance that the
  \<open>getBalanceOn\<close> of the revision returns for the text \<open>ymd\<close> of that date.
\<close>

theorem forecastSeries_dense:
  assumes "in_window (Day t0)" and "in_window (Day t0 + n)" and "0 \<le> n"
    and "calendar_day (firstPayday st) f" and "calendar_day (startDate st) s"
    and "list_all2 range_days (ptoRanges st) rds" and "list_all2 credit_day (credits st) cds"
    and "list_all2 entry_day (pto st) pds"
  shows "\<exists>series series'.
      forecastSeries st (JDate (TimeValue t0)) (Fin (of_int n)) = Inr series
    \<and> generateForecastSeries st (JDate (TimeValue t0)) (Fin (of_int n)) = Inr series'
    \<and> length series = nat n + 1 \<and> length series' = nat n + 1
    \<and> (\<forall>i\<le>nat n.
         addDays (JDate (TimeValue t0)) (Fin (of_nat i)) = Inr (point_date (series ! i))
         \<and> point_date (series ! i) = JDate (TimeValue (t0 + int i * msPerDay))
         \<and> point_date (series' ! i) = point_date (series ! i)
         \<and> ymd (point_date (series ! i)) = Inr (day_text (Day t0 + int i))
         \<and> getBalanceOn st (JStr (day_text (Day t0 + int i))) = Inr (point_y (series ! i))
         \<and> getBalanceOn_holidays st (JStr (day_text (Day t0 + int i)))
             = Inr (point_y (series' ! i)))"
proof -
  define F where "F k = (case getBalanceOn st (JStr (day_text k)) of Inr y \<Rightarrow> y | Inl e \<Rightarrow> NaN)"
    for k
  define G where
    "G k = (case getBalanceOn_holidays st (JStr (day_text k)) of Inr y \<Rightarrow> y | Inl e \<Rightarrow> NaN)"
    for k
  have b1: "getBalanceOn st (JStr (day_text k)) = Inr (F k)" if w: "in_window k" for k
  proof -
    obtain y where "getBalanceOn st (JStr (day_text k)) = Inr y"
      using getBalanceOn_returns [OF calendar_day_text [OF w] assms(4,6,7)] by (rule exE)
    then show ?thesis by (simp add: F_def)
  qed
  have b2: "getBalanceOn_holidays st (JStr (day_text k)) = Inr (G k)" if w: "in_window k" for k
  proof -
    obtain y where "getBalanceOn_holidays st (JStr (day_text k)) = Inr y"
      using getBalanceOn_holidays_returns [OF calendar_day_text [OF w] assms(4,5,6,7,8)]
      by (rule exE)
    then show ?thesis by (simp add: G_def)
  qed
  define S where "S = map (forecast_point F t0) [0..n]"
  define S' where "S' = map (forecast_point G t0) [0..n]"
  have s1: "forecastSeries st (JDate (TimeValue t0)) (Fin (of_int n)) = Inr S"
    unfolding forecastSeries_def S_def by (rule forecast_loop_series [of "getBalanceOn st" F, OF b1 assms(1,2)])
  have s2: "generateForecastSeries st (JDate (TimeValue t0)) (Fin (of_int n)) = Inr S'"
    unfolding generateForecastSeries_def S'_def by (rule forecast_loop_series [of "getBalanceOn_holidays st" G, OF b2 assms(1,2)])
  have l1: "length S = nat n + 1" using assms(3) by (simp add: S_def)
  have l2: "length S' = nat n + 1" using assms(3) by (simp add: S'_def)
  have e: "\<forall>i\<le>nat n.
         addDays (JDate (TimeValue t0)) (Fin (of_nat i)) = Inr (point_date (S ! i))
         \<and> point_date (S ! i) = JDate (TimeValue (t0 + int i * msPerDay))
         \<and> point_date (S' ! i) = point_date (S ! i)
         \<and> ymd (point_date (S ! i)) = Inr (day_text (Day t0 + int i))
         \<and> getBalanceOn st (JStr (day_text (Day t0 + int i))) = Inr (point_y (S ! i))
         \<and> getBalanceOn_holidays st (JStr (day_text (Day t0 + int i))) = Inr (point_y (S' ! i))"
  proof (intro allI impI)
    fix i assume i: "i \<le> nat n"
    note p = forecast_point_nth [of "getBalanceOn st" F, OF b1 assms(1,2,3) i, folded S_def]
    note q = forecast_point_nth [of "getBalanceOn_holidays st" G, OF b2 assms(1,2,3) i,
        folded S'_def]
    have d: "point_date (S' ! i) = point_date (S ! i)" by (simp only: p(2) q(2))
    show "addDays (JDate (TimeValue t0)) (Fin (of_nat i)) = Inr (point_date (S ! i))
         \<and> point_date (S ! i) = JDate (TimeValue (t0 + int i * msPerDay))
         \<and> point_date (S' ! i) = point_date (S ! i)
         \<and> ymd (point_date (S ! i)) = Inr (day_text (Day t0 + int i))
         \<and> getBalanceOn st (JStr (day_text (Day t0 + int i))) = Inr (point_y (S ! i))
         \<and> getBalanceOn_holidays st (JStr (day_text (Day t0 + int i))) = Inr (point_y (S' ! i))"
      by (intro conjI p(1) p(2) d p(3) p(4) q(4))
  qed
  show ?thesis
    by (rule exI [of _ S], rule exI [of _ S']) (intro conjI s1 s2 l1 l2 e)
qed

theorem forecastSeries_dense_witness:
  "in_window (Day 1767744000000) \<and> in_window (Day 1767744000000 + 2) \<and> (0::int) \<le> 2
   \<and> calendar_day (firstPayday (DEFAULTS \<lparr> startBalance := JNum (Fin 10),
        accrualPerPeriod := JNum (Fin 4.5) \<rparr>)) 20461
   \<and> calendar_day (startDate (DEFAULTS \<lparr> startBalance := JNum (Fin 10),
        accrualPerPeriod := JNum (Fin 4.5) \<rparr>)) 20454
   \<and> list_all2 range_days (ptoRanges (DEFAULTS \<lparr> startBalance := JNum (Fin 10),
        accrualPerPeriod := JNum (Fin 4.5) \<rparr>)) []
   \<and> list_all2 credit_day (credits (DEFAULTS \<lparr> startBalance := JNum (Fin 10),
        accrualPerPeriod := JNum (Fin 4.5) \<rparr>)) []
   \<and> list_all2 entry_day (pto (DEFAULTS \<lparr> startBalance := JNum (Fin 10),
        accrualPerPeriod := JNum (Fin 4.5) \<rparr>)) []
   \<and> forecastSeries (DEFAULTS \<lparr> startBalance := JNum (Fin 10), accrualPerPeriod := JNum (Fin 4.5) \<rparr>)
        (JDate (TimeValue 1767744000000)) (Fin 2)
       = Inr [\<lparr> point_date = JDate (TimeValue 1767744000000), point_y = Fin 10 \<rparr>,
              \<lparr> point_date = JDate (TimeValue 1767830400000), point_y = Fin 14.5 \<rparr>,
              \<lparr> point_date = JDate (TimeValue 1767916800000), point_y = Fin 14.5 \<rparr>]
   \<and> (\<exists>series'. generateForecastSeries
          (DEFAULTS \<lparr> startBalance := JNum (Fin 10), accrualPerPeriod := JNum (Fin 4.5) \<rparr>)
          (JDate (TimeValue 1767744000000)) (Fin 2) = Inr series' \<and> length series' = 3
          \<and> map point_date series'
            = [JDate (TimeValue 1767744000000), JDate (TimeValue 1767830400000),
               JDate (TimeValue 1767916800000)])"
proof -
  have a: "in_window (Day 1767744000000)" by code_simp
  have b: "in_window (Day 1767744000000 + 2)" by code_simp
  have c: "(0::int) \<le> 2" by simp
  have d: "calendar_day (firstPayday (DEFAULTS \<lparr> startBalance := JNum (Fin 10),
        accrualPerPeriod := JNum (Fin 4.5) \<rparr>)) 20461" by code_simp
  have e: "calendar_day (startDate (DEFAULTS \<lparr> startBalance := JNum (Fin 10),
        accrualPerPeriod := JNum (Fin 4.5) \<rparr>)) 20454" by code_simp
  have f: "list_all2 range_days (ptoRanges (DEFAULTS \<lparr> startBalance := JNum (Fin 10),
        accrualPerPeriod := JNum (Fin 4.5) \<rparr>)) []" by code_simp
  have g: "list_all2 credit_day (credits (DEFAULTS \<lparr> startBalance := JNum (Fin 10),
        accrualPerPeriod := JNum (Fin 4.5) \<rparr>)) []" by code_simp
  have h: "list_all2 entry_day (pto (DEFAULTS \<lparr> startBalance := JNum (Fin 10),
        accrualPerPeriod := JNum (Fin 4.5) \<rparr>)) []" by code_simp
  have k: "forecastSeries (DEFAULTS \<lparr> startBalance := JNum (Fin 10), accrualPerPeriod := JNum (Fin 4.5) \<rparr>)
        (JDate (TimeValue 1767744000000)) (Fin 2)
       = Inr [\<lparr> point_date = JDate (TimeValue 1767744000000), point_y = Fin 10 \<rparr>,
              \<lparr> point_date = JDate (TimeValue 1767830400000), point_y = Fin 14.5 \<rparr>,
              \<lparr> point_date = JDate (TimeValue 1767916800000), point_y = Fin 14.5 \<rparr>]"
    by code_simp
  have x: "\<exists>series'. generateForecastSeries
          (DEFAULTS \<lparr> startBalance := JNum (Fin 10), accrualPerPeriod := JNum (Fin 4.5) \<rparr>)
          (JDate (TimeValue 1767744000000)) (Fin 2) = Inr series' \<and> length series' = 3
          \<and> map point_date series'
            = [JDate (TimeValue 1767744000000), JDate (TimeValue 1767830400000),
               JDate (TimeValue 1767916800000)]"
    using forecastSeries_dense [OF a b c d e f g h]
  proof (elim exE conjE, goal_cases)
    case (1 series series')
    have sk: "series = [\<lparr> point_date = JDate (TimeValue 1767744000000), point_y = Fin 10 \<rparr>,
              \<lparr> point_date = JDate (TimeValue 1767830400000), point_y = Fin 14.5 \<rparr>,
              \<lparr> point_date = JDate (TimeValue 1767916800000), point_y = Fin 14.5 \<rparr>]"
      using 1(1) k by simp
    have g2: "generateForecastSeries
          (DEFAULTS \<lparr> startBalance := JNum (Fin 10), accrualPerPeriod := JNum (Fin 4.5) \<rparr>)
          (JDate (TimeValue 1767744000000)) (Fin 2) = Inr series'"
      using 1(2) by simp
    have l3: "length series' = 3" using 1(4) by simp
    have i0: "point_date (series' ! 0) = point_date (series ! 0)"
      using 1(5) [rule_format, of 0] by simp
    have i1: "point_date (series' ! 1) = point_date (series ! 1)"
      using 1(5) [rule_format, of 1] by simp
    have i2: "point_date (series' ! 2) = point_date (series ! 2)"
      using 1(5) [rule_format, of 2] by simp
    obtain x y z where xyz: "series' = [x, y, z]"
      using l3 by (auto simp: length_Suc_conv numeral_3_eq_3)
    have m: "map point_date series'
      = [JDate (TimeValue 1767744000000), JDate (TimeValue 1767830400000),
         JDate (TimeValue 1767916800000)]"
      using i0 i1 i2 by (simp add: xyz sk)
    show ?case by (rule exI [of _ series'], intro conjI g2 l3 m)
  qed
  show ?thesis by (intro conjI a b c d e f g h k x)
qed

end
